theory Spec2Isabelle
  imports Main
begin

section \<open>Data frames\<close>

text \<open>
  A pandas data frame is modelled as its list of column names together with its list of
  rows. A row is an association list from column name to cell value; a column that has no
  entry in a row is a null cell (NaN). Looking a cell up is \<open>map_of\<close>, so a cell has
  type \<open>'v option\<close> with \<open>None\<close> for null. pandas joins and \<open>drop_duplicates\<close> treat
  two null keys as equal, which is equality on \<open>'v option\<close>.

  The frames handed to \<open>hop\<close> are taken to carry the columns their bindings name, and the
  frame's own index is the default positional one.
\<close>

type_synonym 'v row = "(string \<times> 'v) list"

record 'v frame =
  columns :: "string list"
  rows :: "'v row list"

text \<open>A one-column frame of identifiers is the list of its cells.\<close>

type_synonym 'v ids = "'v option list"

text \<open>\<open>df.drop_duplicates()\<close> keeps the first occurrence of every value.\<close>

definition drop_duplicates :: "'a list \<Rightarrow> 'a list" where
  "drop_duplicates xs = rev (remdups (rev xs))"

text \<open>\<open>ids.merge(df, on=key, how='left')\<close>: every identifier keeps its place; it is paired
  with each row of \<open>df\<close> that carries it, and with an all-null row when there is none.\<close>

definition null_row :: "string \<Rightarrow> 'v option \<Rightarrow> 'v row" where
  "null_row key w = (case w of None \<Rightarrow> [] | Some x \<Rightarrow> [(key, x)])"

definition merge_left :: "'v ids \<Rightarrow> 'v frame \<Rightarrow> string \<Rightarrow> 'v frame" where
  "merge_left ws df key =
     \<lparr> columns = key # filter (\<lambda>c. c \<noteq> key) (columns df),
       rows = concat (map (\<lambda>w.
                let ms = filter (\<lambda>r. map_of r key = w) (rows df)
                in if ms = [] then [null_row key w] else ms) ws) \<rparr>"

text \<open>\<open>df.merge(ids, on=key, how='inner')\<close>: a row of \<open>df\<close> once for every identifier
  equal to its key cell.\<close>

definition merge_inner :: "'v frame \<Rightarrow> 'v ids \<Rightarrow> string \<Rightarrow> 'v frame" where
  "merge_inner df ws key =
     df \<lparr> rows := concat (map (\<lambda>r. map (\<lambda>w. r) (filter (\<lambda>w. map_of r key = w) ws)) (rows df)) \<rparr>"

section \<open>Errors\<close>

text \<open>Every \<open>raise\<close> of \<open>hop\<close> is a configuration error; a predicate that names a column
  its frame does not have is an expression error.\<close>

datatype config_error =
    Hops_not_int
  | Invalid_direction
  | Edges_index_column
  | Node_binding_none
  | Source_destination_binding_none

datatype error = ConfigurationError config_error | ExpressionError string

section \<open>Predicate filter\<close>

type_synonym 'v dict = "(string \<times> 'v) list"

definition row_matches :: "'v dict \<Rightarrow> 'v row \<Rightarrow> bool" where
  "row_matches d r = list_all (\<lambda>kv. map_of r (fst kv) = Some (snd kv)) d"

text \<open>Modelled from the spec: \<open>filter_by_dict\<close> of \<open>graphistry/compute/filter_by_dict.py\<close>,
  which is not among the sources. It keeps the rows where every listed field equals the
  given value; a null or empty map passes all rows through; a field the frame does not have
  is a fatal expression error.\<close>

definition filter_by_dict :: "'v frame \<Rightarrow> 'v dict option \<Rightarrow> error + 'v frame" where
  "filter_by_dict df filter_dict =
     (case filter_dict of
        None \<Rightarrow> Inr df
      | Some d \<Rightarrow>
          if d = [] then Inr df
          else (case find (\<lambda>kv. fst kv \<notin> set (columns df)) d of
                  Some kv \<Rightarrow> Inl (ExpressionError (fst kv))
                | None \<Rightarrow> Inr (df \<lparr> rows := filter (row_matches d) (rows df) \<rparr>)))"

text \<open>Modelled from the spec: a query is an expression string that pandas evaluates on every
  row. It is represented by the fields it reads and by its truth value on a row;
  \<open>df.query\<close> keeps the rows where it holds, and reading a field the frame does not have is a
  fatal expression error.\<close>

record 'v query =
  q_fields :: "string list"
  q_holds :: "'v row \<Rightarrow> bool"

definition df_query :: "'v frame \<Rightarrow> 'v query \<Rightarrow> error + 'v frame" where
  "df_query df q =
     (case find (\<lambda>k. k \<notin> set (columns df)) (q_fields q) of
        Some k \<Rightarrow> Inl (ExpressionError k)
      | None \<Rightarrow> Inr (df \<lparr> rows := filter (q_holds q) (rows df) \<rparr>))"

definition query_if_not_none :: "'v query option \<Rightarrow> 'v frame \<Rightarrow> error + 'v frame" where
  "query_if_not_none query df =
     (case query of None \<Rightarrow> Inr df | Some q \<Rightarrow> df_query df q)"

text \<open>The composition \<open>query_if_not_none(query, filter_by_dict(df, d))\<close>: the inner call is
  evaluated first, and its error wins.\<close>

definition filter_then_query :: "'v frame \<Rightarrow> 'v dict option \<Rightarrow> 'v query option \<Rightarrow> error + 'v frame" where
  "filter_then_query df d query =
     (case filter_by_dict df d of
        Inl e \<Rightarrow> Inl e
      | Inr df' \<Rightarrow> query_if_not_none query df')"

section \<open>Graphs and traversal requests\<close>

record 'v plottable =
  g_nodes :: "'v frame option"
  g_edges :: "'v frame"
  g_node :: "string option"
  g_source :: "string option"
  g_destination :: "string option"
  g_edge :: "string option"

record 'v request =
  nodes :: "'v frame option"
  hops :: "int option"
  to_fixed_point :: bool
  direction :: string
  edge_match :: "'v dict option"
  source_node_match :: "'v dict option"
  destination_node_match :: "'v dict option"
  source_node_query :: "'v query option"
  destination_node_query :: "'v query option"
  edge_query :: "'v query option"
  return_as_wave_front :: bool
  target_wave_front :: "'v frame option"

text \<open>Modelled from the spec: \<open>materialize_nodes\<close> of the graph abstraction, which is not
  among the sources: a materialization step that derives an implicit node table when only
  edges are supplied. The derived table has one row per distinct edge endpoint, holding the
  identifier alone; a graph that has a node table is returned as it is.\<close>

definition endpoint_ids :: "'v row list \<Rightarrow> string \<Rightarrow> string \<Rightarrow> 'v ids" where
  "endpoint_ids es s d = map (\<lambda>r. map_of r s) es @ map (\<lambda>r. map_of r d) es"

definition materialize_nodes :: "'v plottable \<Rightarrow> 'v plottable" where
  "materialize_nodes g =
     (case g_nodes g of
        Some n \<Rightarrow> g
      | None \<Rightarrow>
          (case (g_node g, g_source g, g_destination g) of
             (Some node, Some s, Some d) \<Rightarrow>
               g \<lparr> g_nodes := Some \<lparr> columns = [node],
                     rows = map (null_row node) (drop_duplicates (endpoint_ids (rows (g_edges g)) s d)) \<rparr> \<rparr>
           | _ \<Rightarrow> g \<lparr> g_nodes := Some \<lparr> columns = [], rows = [] \<rparr> \<rparr>))"

section \<open>Edge indexer\<close>

text \<open>An edge identifier is either the surrogate position that \<open>reset_index\<close> supplies or
  the cell of the bound edge-id column.\<close>

datatype 'v edge_id = Surrogate nat | Bound "'v option"

text \<open>The indexed edge relation: every row with its identifier. The surrogate identifier
  is kept beside the row and not inside it, so dropping the surrogate column from the
  hydrated edges is forgetting the first component.\<close>

type_synonym 'v indexed_edges = "('v edge_id \<times> 'v row) list"

definition reset_index :: "'v row list \<Rightarrow> 'v indexed_edges" where
  "reset_index rs = zip (map Surrogate [0 ..< length rs]) rs"

definition index_by :: "string \<Rightarrow> 'v row list \<Rightarrow> 'v indexed_edges" where
  "index_by edge rs = map (\<lambda>r. (Bound (map_of r edge), r)) rs"

text \<open>Lines 72 to 79 of \<open>hop\<close>; \<open>g2.filter_edges_by_dict(edge_match)._edges\<close> is
  \<open>filter_by_dict\<close> on the edge relation.\<close>

definition edges_indexed :: "'v plottable \<Rightarrow> 'v dict option \<Rightarrow> 'v query option \<Rightarrow> error + 'v indexed_edges" where
  "edges_indexed g2 e_match e_query =
     (case g_edge g2 of
        None \<Rightarrow>
          if ''index'' \<in> set (columns (g_edges g2)) then Inl (ConfigurationError Edges_index_column)
          else (case filter_then_query (g_edges g2) e_match e_query of
                  Inl e \<Rightarrow> Inl e
                | Inr df \<Rightarrow> Inr (reset_index (rows df)))
      | Some edge \<Rightarrow>
          (case filter_then_query (g_edges g2) e_match e_query of
             Inl e \<Rightarrow> Inl e
           | Inr df \<Rightarrow> Inr (index_by edge (rows df))))"

section \<open>Wavefront loop\<close>

text \<open>What stays fixed while the loop runs: the request (with an empty
  \<open>destination_node_match\<close> already replaced by none), the three bound column names, the
  starting frame \<open>nodes\<close>, the indexed edges and \<open>base_target_nodes\<close>.\<close>

record 'v env =
  rq :: "'v request"
  node :: string
  source :: string
  destination :: string
  start_nodes :: "'v frame"
  indexed :: "'v indexed_edges"
  base_target_nodes :: "'v frame"

text \<open>The variables the loop assigns.\<close>

record 'v state =
  hops_remaining :: "int option"
  wave_front :: "'v ids"
  matches_nodes :: "'v ids option"
  matches_edges :: "'v edge_id list"
  first_iter :: bool

text \<open>A traversed edge: its source cell, its destination cell and its identifier.\<close>

type_synonym 'v hop_edge = "'v option \<times> 'v option \<times> 'v edge_id"

definition he_source :: "'v hop_edge \<Rightarrow> 'v option" where
  "he_source h = fst h"

definition he_destination :: "'v hop_edge \<Rightarrow> 'v option" where
  "he_destination h = fst (snd h)"

definition he_id :: "'v hop_edge \<Rightarrow> 'v edge_id" where
  "he_id h = snd (snd h)"

definition column_ids :: "'v frame \<Rightarrow> string \<Rightarrow> 'v ids" where
  "column_ids df key = map (\<lambda>r. map_of r key) (rows df)"

text \<open>Lines 105 to 111: the source predicates on the starting frame in the first
  iteration, and on the wavefront left-joined with the starting frame afterwards.\<close>

definition wave_front_iter :: "'v env \<Rightarrow> 'v state \<Rightarrow> error + 'v ids" where
  "wave_front_iter E st =
     (case filter_then_query
             (if first_iter st then start_nodes E
              else merge_left (wave_front st) (start_nodes E) (node E))
             (source_node_match (rq E)) (source_node_query (rq E)) of
        Inl e \<Rightarrow> Inl e
      | Inr df \<Rightarrow> Inr (column_ids df (node E)))"

text \<open>Lines 117 to 123 and 143 to 149: the inner join of the active frontier with the
  indexed edges, on the source column going forward and on the destination column going
  in reverse.\<close>

definition join_edges :: "'v ids \<Rightarrow> 'v indexed_edges \<Rightarrow> string \<Rightarrow> string \<Rightarrow> string \<Rightarrow> 'v hop_edge list" where
  "join_edges ws es key s d =
     concat (map (\<lambda>w. map (\<lambda>ir. (map_of (snd ir) s, map_of (snd ir) d, fst ir))
                          (filter (\<lambda>ir. map_of (snd ir) key = w) es)) ws)"

definition has_destination_predicate :: "'v env \<Rightarrow> bool" where
  "has_destination_predicate E =
     (destination_node_query (rq E) \<noteq> None \<or> destination_node_match (rq E) \<noteq> None)"

text \<open>Lines 127 to 132 and 153 to 158: the destination predicates on \<open>base_target_nodes\<close>
  joined with the candidate identifiers.\<close>

definition filter_new_node_ids :: "'v env \<Rightarrow> 'v ids \<Rightarrow> error + 'v ids" where
  "filter_new_node_ids E new_ids =
     (case filter_then_query (merge_inner (base_target_nodes E) new_ids (node E))
             (destination_node_match (rq E)) (destination_node_query (rq E)) of
        Inl e \<Rightarrow> Inl e
      | Inr df \<Rightarrow> Inr (column_ids df (node E)))"

text \<open>Lines 133 to 137 and 159 to 163: the traversed edges joined back with the surviving
  identifiers on their far endpoint.\<close>

definition restrict_edges :: "'v hop_edge list \<Rightarrow> ('v hop_edge \<Rightarrow> 'v option) \<Rightarrow> 'v ids \<Rightarrow> 'v hop_edge list" where
  "restrict_edges hs far new_ids =
     concat (map (\<lambda>h. map (\<lambda>w. h) (filter (\<lambda>w. far h = w) new_ids)) hs)"

text \<open>One direction of one iteration: the traversed edges and the new node identifiers.
  \<open>key\<close> is the column the frontier is joined on and \<open>far\<close> reads the opposite endpoint.\<close>

definition hop_direction :: "'v env \<Rightarrow> 'v ids \<Rightarrow> string \<Rightarrow> ('v hop_edge \<Rightarrow> 'v option)
    \<Rightarrow> error + ('v hop_edge list \<times> 'v ids)" where
  "hop_direction E wfi key far =
     (let hop_edges = join_edges wfi (indexed E) key (source E) (destination E);
          new_node_ids = drop_duplicates (map far hop_edges)
      in if has_destination_predicate E then
           (case filter_new_node_ids E new_node_ids of
              Inl e \<Rightarrow> Inl e
            | Inr new_node_ids' \<Rightarrow> Inr (restrict_edges hop_edges far new_node_ids', new_node_ids'))
         else Inr (hop_edges, new_node_ids))"

definition hop_forward :: "'v env \<Rightarrow> 'v ids \<Rightarrow> error + ('v hop_edge list \<times> 'v ids) option" where
  "hop_forward E wfi =
     (if direction (rq E) = ''forward'' \<or> direction (rq E) = ''undirected'' then
        (case hop_direction E wfi (source E) he_destination of
           Inl e \<Rightarrow> Inl e | Inr r \<Rightarrow> Inr (Some r))
      else Inr None)"

definition hop_reverse :: "'v env \<Rightarrow> 'v ids \<Rightarrow> error + ('v hop_edge list \<times> 'v ids) option" where
  "hop_reverse E wfi =
     (if direction (rq E) = ''reverse'' \<or> direction (rq E) = ''undirected'' then
        (case hop_direction E wfi (destination E) he_source of
           Inl e \<Rightarrow> Inl e | Inr r \<Rightarrow> Inr (Some r))
      else Inr None)"

text \<open>\<open>[x] if x is not None else []\<close> under \<open>pd.concat\<close>.\<close>

definition if_not_none :: "'a option \<Rightarrow> ('a \<Rightarrow> 'b list) \<Rightarrow> 'b list" where
  "if_not_none x f = (case x of None \<Rightarrow> [] | Some y \<Rightarrow> f y)"

datatype 'v outcome = Break "'v state" | Continue "'v state"

text \<open>Lines 165 to 202, from the two directions' results to the end of the iteration.\<close>

definition accumulate :: "'v env \<Rightarrow> 'v state
    \<Rightarrow> ('v hop_edge list \<times> 'v ids) option \<Rightarrow> ('v hop_edge list \<times> 'v ids) option \<Rightarrow> 'v outcome" where
  "accumulate E st fwd bwd =
     (let matches_edges' = drop_duplicates
            (matches_edges st
             @ if_not_none fwd (\<lambda>r. map he_id (fst r))
             @ if_not_none bwd (\<lambda>r. map he_id (fst r)));
          new_node_ids = drop_duplicates (if_not_none fwd snd @ if_not_none bwd snd);
          matches_nodes' =
            (case matches_nodes st of
               Some m \<Rightarrow> m
             | None \<Rightarrow>
                 if return_as_wave_front (rq E) then []
                 else drop_duplicates
                        (if_not_none fwd (\<lambda>r. drop_duplicates (map he_source (fst r)))
                         @ if_not_none bwd (\<lambda>r. drop_duplicates (map he_destination (fst r)))));
          combined_node_ids = drop_duplicates (matches_nodes' @ new_node_ids)
      in if length combined_node_ids = length matches_nodes' then
           Break (st \<lparr> matches_edges := matches_edges', matches_nodes := Some matches_nodes' \<rparr>)
         else
           Continue (st \<lparr> matches_edges := matches_edges', wave_front := new_node_ids,
                          matches_nodes := Some combined_node_ids \<rparr>))"

text \<open>Lines 104 to 202: the body of one iteration, after the hop budget has been
  checked.\<close>

definition iteration :: "'v env \<Rightarrow> 'v state \<Rightarrow> error + 'v outcome" where
  "iteration E st =
     (case wave_front_iter E st of
        Inl e \<Rightarrow> Inl e
      | Inr wfi \<Rightarrow>
          (case hop_forward E wfi of
             Inl e \<Rightarrow> Inl e
           | Inr fwd \<Rightarrow>
               (case hop_reverse E wfi of
                  Inl e \<Rightarrow> Inl e
                | Inr bwd \<Rightarrow> Inr (accumulate E (st \<lparr> first_iter := False \<rparr>) fwd bwd))))"

text \<open>Lines 99 to 102: the hop budget, ignored in fixed-point mode.\<close>

definition budget :: "'v env \<Rightarrow> 'v state \<Rightarrow> 'v state option" where
  "budget E st =
     (if \<not> to_fixed_point (rq E) \<and> hops_remaining st \<noteq> None then
        (if the (hops_remaining st) < 1 then None
         else Some (st \<lparr> hops_remaining := Some (the (hops_remaining st) - 1) \<rparr>))
      else Some st)"

section \<open>Basic facts\<close>

lemma set_drop_duplicates [simp]: "set (drop_duplicates xs) = set xs"
  by (simp add: drop_duplicates_def)

lemma distinct_drop_duplicates [simp]: "distinct (drop_duplicates xs)"
  by (simp add: drop_duplicates_def)

lemma length_drop_duplicates: "length (drop_duplicates xs) = card (set xs)"
  by (metis distinct_card distinct_drop_duplicates set_drop_duplicates)

lemma drop_duplicates_Nil [simp]: "drop_duplicates [] = []"
  by (simp add: drop_duplicates_def)

definition passes :: "'v dict option \<Rightarrow> 'v query option \<Rightarrow> 'v row \<Rightarrow> bool" where
  "passes d q r =
     ((case d of None \<Rightarrow> True | Some kvs \<Rightarrow> row_matches kvs r)
      \<and> (case q of None \<Rightarrow> True | Some e \<Rightarrow> q_holds e r))"

lemma passes_dict_only: "passes (Some kvs) None = row_matches kvs"
  by (rule ext) (simp add: passes_def)

lemma passes_query_only: "passes None (Some e) = q_holds e"
  by (rule ext) (simp add: passes_def)

lemma passes_nothing: "passes None None = (\<lambda>r. True)"
  by (rule ext) (simp add: passes_def)

lemma row_matches_Nil: "row_matches [] = (\<lambda>r. True)"
  by (rule ext) (simp add: row_matches_def)

lemma filter_by_dict_Inr:
  "filter_by_dict df d = Inr df' \<Longrightarrow>
     df' = df \<lparr> rows := filter (passes d None) (rows df) \<rparr>"
  by (auto simp: filter_by_dict_def passes_dict_only passes_nothing row_matches_Nil
        split: option.splits if_splits)

lemma query_if_not_none_Inr:
  "query_if_not_none q df = Inr df' \<Longrightarrow>
     df' = df \<lparr> rows := filter (passes None q) (rows df) \<rparr>"
  by (auto simp: query_if_not_none_def df_query_def passes_query_only passes_nothing
        split: option.splits)

lemma filter_then_query_Inr:
  assumes "filter_then_query df d q = Inr df'"
  shows "df' = df \<lparr> rows := filter (passes d q) (rows df) \<rparr>"
proof -
  from assms obtain df1 where 1: "filter_by_dict df d = Inr df1" and 2: "query_if_not_none q df1 = Inr df'"
    by (auto simp: filter_then_query_def split: sum.splits)
  have "passes d q = (\<lambda>r. passes d None r \<and> passes None q r)"
    by (auto simp: passes_def fun_eq_iff)
  with filter_by_dict_Inr[OF 1] query_if_not_none_Inr[OF 2] show ?thesis
    by (simp add: conj_commute)
qed

lemma join_edges_iff:
  "h \<in> set (join_edges ws es key s d) \<longleftrightarrow>
     (\<exists>ir \<in> set es. map_of (snd ir) key \<in> set ws \<and> h = (map_of (snd ir) s, map_of (snd ir) d, fst ir))"
  by (auto simp: join_edges_def)

lemma set_restrict_edges:
  "set (restrict_edges hs far ns) = {h \<in> set hs. far h \<in> set ns}"
  by (auto simp: restrict_edges_def)

lemma set_merge_inner_rows:
  "set (rows (merge_inner df ws key)) = {r \<in> set (rows df). map_of r key \<in> set ws}"
  by (auto simp: merge_inner_def)

lemma filter_new_node_ids_Inr:
  assumes "filter_new_node_ids E ns = Inr ns'"
  shows "set ns' = {map_of r (node E) | r. r \<in> set (rows (base_target_nodes E))
            \<and> map_of r (node E) \<in> set ns
            \<and> passes (destination_node_match (rq E)) (destination_node_query (rq E)) r}"
  using assms
  by (auto simp: filter_new_node_ids_def column_ids_def set_merge_inner_rows
        dest!: filter_then_query_Inr split: sum.splits)

definition endpoints :: "'v env \<Rightarrow> 'v option set" where
  "endpoints E = set (endpoint_ids (map snd (indexed E)) (source E) (destination E))"

definition candidates :: "'v env \<Rightarrow> 'v ids \<Rightarrow> string \<Rightarrow> 'v hop_edge list" where
  "candidates E wfi key = join_edges wfi (indexed E) key (source E) (destination E)"

lemma hop_direction_unfold:
  "hop_direction E wfi key far =
     (if has_destination_predicate E then
        (case filter_new_node_ids E (drop_duplicates (map far (candidates E wfi key))) of
           Inl e \<Rightarrow> Inl e
         | Inr ns \<Rightarrow> Inr (restrict_edges (candidates E wfi key) far ns, ns))
      else Inr (candidates E wfi key, drop_duplicates (map far (candidates E wfi key))))"
  unfolding hop_direction_def candidates_def Let_def by (rule refl)

lemma hop_direction_Inr:
  assumes "hop_direction E wfi key far = Inr (hs, ns)"
  shows "set hs \<subseteq> set (candidates E wfi key) \<and> set ns = far ` set hs"
proof (cases "has_destination_predicate E")
  case False
  with assms show ?thesis
    by (auto simp: hop_direction_unfold)
next
  case True
  let ?c = "candidates E wfi key"
  from True assms have f: "filter_new_node_ids E (drop_duplicates (map far ?c)) = Inr ns"
    and hs: "hs = restrict_edges ?c far ns"
    by (simp_all add: hop_direction_unfold split: sum.splits)
  from filter_new_node_ids_Inr[OF f] have "set ns \<subseteq> far ` set ?c" by auto
  with hs show ?thesis by (auto simp: set_restrict_edges)
qed

lemma candidates_iff:
  "h \<in> set (candidates E wfi key) \<longleftrightarrow>
     (\<exists>ir \<in> set (indexed E). map_of (snd ir) key \<in> set wfi
        \<and> h = (map_of (snd ir) (source E), map_of (snd ir) (destination E), fst ir))"
  by (simp add: candidates_def join_edges_iff)

lemma candidates_endpoints:
  assumes "h \<in> set (candidates E wfi key)"
  shows "he_source h \<in> endpoints E \<and> he_destination h \<in> endpoints E"
proof -
  from assms obtain ir where "ir \<in> set (indexed E)"
    and "h = (map_of (snd ir) (source E), map_of (snd ir) (destination E), fst ir)"
    by (auto simp: candidates_iff)
  then show ?thesis
    by (force simp: endpoints_def endpoint_ids_def he_source_def he_destination_def)
qed

lemma hop_forward_new_ids:
  "hop_forward E wfi = Inr fwd \<Longrightarrow> set (if_not_none fwd snd) \<subseteq> endpoints E"
  by (auto simp: hop_forward_def if_not_none_def split: if_splits sum.splits
      dest!: hop_direction_Inr candidates_endpoints)

lemma hop_reverse_new_ids:
  "hop_reverse E wfi = Inr bwd \<Longrightarrow> set (if_not_none bwd snd) \<subseteq> endpoints E"
  by (auto simp: hop_reverse_def if_not_none_def split: if_splits sum.splits
      dest!: hop_direction_Inr candidates_endpoints)

definition progress :: "'v env \<Rightarrow> 'v ids option \<Rightarrow> nat" where
  "progress E m =
     (case m of
        None \<Rightarrow> 2 * card (endpoints E) + 2
      | Some ms \<Rightarrow> 2 * card (endpoints E - set ms) + (if distinct ms then 0 else 1))"

lemma finite_endpoints [simp]: "finite (endpoints E)"
  by (simp add: endpoints_def)

lemma progress_Some_le: "progress E (Some ms) \<le> 2 * card (endpoints E) + 1"
proof -
  have "card (endpoints E - set ms) \<le> card (endpoints E)"
    by (simp add: card_mono)
  then show ?thesis by (simp add: progress_def)
qed

lemma progress_grow:
  assumes len: "length (drop_duplicates (ms @ ns)) \<noteq> length ms" and sub: "set ns \<subseteq> endpoints E"
  shows "progress E (Some (drop_duplicates (ms @ ns))) < progress E (Some ms)"
proof (cases "distinct ms")
  case False
  have "card (endpoints E - (set ms \<union> set ns)) \<le> card (endpoints E - set ms)"
    by (rule card_mono) auto
  with False show ?thesis by (simp add: progress_def)
next
  case True
  then have "length ms = card (set ms)" by (simp add: distinct_card)
  moreover have "card (set ms) \<le> card (set ms \<union> set ns)" by (simp add: card_mono)
  ultimately have "card (set ms) < card (set ms \<union> set ns)"
    using len by (simp add: length_drop_duplicates)
  then have "set ms \<noteq> set ms \<union> set ns" by auto
  then obtain x where x: "x \<in> set ns" "x \<notin> set ms" by auto
  with sub have "x \<in> endpoints E - set ms" "x \<notin> endpoints E - (set ms \<union> set ns)" by auto
  then have "endpoints E - (set ms \<union> set ns) \<subset> endpoints E - set ms" by auto
  then have "card (endpoints E - (set ms \<union> set ns)) < card (endpoints E - set ms)"
    by (simp add: psubset_card_mono)
  with True show ?thesis by (simp add: progress_def)
qed

lemma accumulate_Continue:
  assumes "accumulate E st fwd bwd = Continue st'"
    and "set (if_not_none fwd snd) \<subseteq> endpoints E" and "set (if_not_none bwd snd) \<subseteq> endpoints E"
  shows "progress E (matches_nodes st') < progress E (matches_nodes st)"
proof -
  let ?new = "drop_duplicates (if_not_none fwd snd @ if_not_none bwd snd)"
  have sub: "set ?new \<subseteq> endpoints E" using assms(2,3) by simp
  show ?thesis
  proof (cases "matches_nodes st")
    case None
    with assms(1) obtain ms where "matches_nodes st' = Some ms"
      by (auto simp: accumulate_def Let_def split: if_splits)
    with None progress_Some_le[of E ms] show ?thesis by (simp add: progress_def)
  next
    case (Some ms)
    with assms(1) have "length (drop_duplicates (ms @ ?new)) \<noteq> length ms"
      and "matches_nodes st' = Some (drop_duplicates (ms @ ?new))"
      by (auto simp: accumulate_def Let_def split: if_splits)
    with Some progress_grow[OF _ sub, of ms] show ?thesis by simp
  qed
qed

lemma iteration_Continue:
  assumes "iteration E st = Inr (Continue st')"
  shows "progress E (matches_nodes st') < progress E (matches_nodes st)"
proof -
  from assms obtain wfi fwd bwd where "hop_forward E wfi = Inr fwd" "hop_reverse E wfi = Inr bwd"
    and "accumulate E (st \<lparr> first_iter := False \<rparr>) fwd bwd = Continue st'"
    by (auto simp: iteration_def split: sum.splits)
  with accumulate_Continue[of E "st \<lparr> first_iter := False \<rparr>" fwd bwd st']
    hop_forward_new_ids[of E wfi fwd] hop_reverse_new_ids[of E wfi bwd]
  show ?thesis by simp
qed

lemma budget_matches_nodes: "budget E st = Some st1 \<Longrightarrow> matches_nodes st1 = matches_nodes st"
  by (auto simp: budget_def split: if_splits)

text \<open>Lines 98 to 202: the loop. Every identifier that an iteration adds is an endpoint
  of an indexed edge, and an iteration that does not break adds one, so the number of
  endpoints still missing from the result bounds the iterations left: the recursion is
  total whatever the hop budget.\<close>

function hop_loop :: "'v env \<Rightarrow> 'v state \<Rightarrow> error + 'v state" where
  "hop_loop E st =
     (case budget E st of
        None \<Rightarrow> Inr st
      | Some st1 \<Rightarrow>
          (case iteration E st1 of
             Inl e \<Rightarrow> Inl e
           | Inr (Break st') \<Rightarrow> Inr st'
           | Inr (Continue st') \<Rightarrow> hop_loop E st'))"
  by pat_completeness auto
termination
proof (relation "measure (\<lambda>(E, st). progress E (matches_nodes st))")
  show "wf (measure (\<lambda>(E, st). progress E (matches_nodes st)))" by simp
next
  fix E :: "'v env" and st st1 :: "'v state" and oc st'
  assume "budget E st = Some st1" "iteration E st1 = Inr oc" "oc = Continue st'"
  then show "((E, st'), (E, st)) \<in> measure (\<lambda>(E, st). progress E (matches_nodes st))"
    using iteration_Continue[of E st1 st'] budget_matches_nodes[of E st st1] by simp
qed

section \<open>Result hydrator and \<open>hop\<close>\<close>

definition initial_state :: "'v request \<Rightarrow> 'v state" where
  "initial_state r =
     \<lparr> hops_remaining = hops r, wave_front = [], matches_nodes = None, matches_edges = [],
       first_iter = True \<rparr>"

text \<open>Lines 205 to 207: \<open>edges_indexed.merge(matches_edges, on=EDGE_ID, how='inner')\<close>,
  with the surrogate identifier dropped again.\<close>

definition final_edges :: "'v plottable \<Rightarrow> 'v indexed_edges \<Rightarrow> 'v edge_id list \<Rightarrow> 'v frame" where
  "final_edges g2 ei ms =
     \<lparr> columns = columns (g_edges g2),
       rows = concat (map (\<lambda>ir. map (\<lambda>m. snd ir) (filter (\<lambda>m. fst ir = m) ms)) ei) \<rparr>"

text \<open>Lines 211 to 220.\<close>

definition final_nodes :: "'v plottable \<Rightarrow> 'v request \<Rightarrow> string \<Rightarrow> 'v state \<Rightarrow> 'v frame option" where
  "final_nodes self r key st =
     (case g_nodes self of
        None \<Rightarrow> None
      | Some ns \<Rightarrow>
          Some (merge_inner
                  (case target_wave_front r of Some t \<Rightarrow> t | None \<Rightarrow> ns)
                  (case matches_nodes st of Some m \<Rightarrow> m | None \<Rightarrow> [])
                  key))"

definition hydrate :: "'v plottable \<Rightarrow> 'v plottable \<Rightarrow> 'v request \<Rightarrow> string \<Rightarrow> 'v indexed_edges
    \<Rightarrow> 'v state \<Rightarrow> 'v plottable" where
  "hydrate self g2 r key ei st =
     (let g_out = g2 \<lparr> g_edges := final_edges g2 ei (matches_edges st) \<rparr>
      in case final_nodes self r key st of
           None \<Rightarrow> g_out
         | Some fn \<Rightarrow> g_out \<lparr> g_nodes := Some fn \<rparr>)"

definition valid_direction :: "string \<Rightarrow> bool" where
  "valid_direction d = (d = ''forward'' \<or> d = ''reverse'' \<or> d = ''undirected'')"

text \<open>Lines 64 and 65.\<close>

definition normalize :: "'v request \<Rightarrow> 'v request" where
  "normalize r =
     (if destination_node_match r = Some [] then r \<lparr> destination_node_match := None \<rparr> else r)"

text \<open>Lines 67 to 95: the environment of the loop, or the error raised before it.\<close>

definition prepare :: "'v plottable \<Rightarrow> 'v request \<Rightarrow> error + 'v env" where
  "prepare self r =
     (if \<not> to_fixed_point r \<and> hops r = None then Inl (ConfigurationError Hops_not_int)
      else if \<not> valid_direction (direction r) then Inl (ConfigurationError Invalid_direction)
      else
        (let g2 = materialize_nodes self
         in case edges_indexed g2 (edge_match r) (edge_query r) of
              Inl e \<Rightarrow> Inl e
            | Inr ei \<Rightarrow>
                (case g_node g2 of
                   None \<Rightarrow> Inl (ConfigurationError Node_binding_none)
                 | Some key \<Rightarrow>
                     (case (g_source g2, g_destination g2) of
                        (Some s, Some d) \<Rightarrow>
                          Inr \<lparr> rq = normalize r, node = key, source = s, destination = d,
                                start_nodes = (case nodes r of None \<Rightarrow> the (g_nodes g2) | Some n \<Rightarrow> n),
                                indexed = ei,
                                base_target_nodes =
                                  (case target_wave_front r of Some t \<Rightarrow> t | None \<Rightarrow> the (g_nodes g2)) \<rparr>
                      | _ \<Rightarrow> Inl (ConfigurationError Source_destination_binding_none)))))"

definition hop :: "'v plottable \<Rightarrow> 'v request \<Rightarrow> error + 'v plottable" where
  "hop self r =
     (case prepare self r of
        Inl e \<Rightarrow> Inl e
      | Inr E \<Rightarrow>
          (case hop_loop E (initial_state r) of
             Inl e \<Rightarrow> Inl e
           | Inr st \<Rightarrow> Inr (hydrate self (materialize_nodes self) r (node E) (indexed E) st)))"

section \<open>Before the loop\<close>

lemma materialize_nodes_fields [simp]:
  "g_edges (materialize_nodes g) = g_edges g"
  "g_node (materialize_nodes g) = g_node g"
  "g_source (materialize_nodes g) = g_source g"
  "g_destination (materialize_nodes g) = g_destination g"
  "g_edge (materialize_nodes g) = g_edge g"
  by (simp_all add: materialize_nodes_def split: option.splits)

lemma materialize_nodes_Some [simp]: "g_nodes g = Some n \<Longrightarrow> materialize_nodes g = g"
  by (simp add: materialize_nodes_def)

lemma prepare_index_column:
  assumes "g_edge g = None" and "''index'' \<in> set (columns (g_edges g))"
  shows "prepare g r = Inl (ConfigurationError
            (if \<not> to_fixed_point r \<and> hops r = None then Hops_not_int
             else if \<not> valid_direction (direction r) then Invalid_direction
             else Edges_index_column))"
  using assms by (simp add: prepare_def edges_indexed_def)

definition indexed_graph :: "string plottable" where
  "indexed_graph =
     \<lparr> g_nodes = Some \<lparr> columns = [''id''], rows = [[(''id'', ''A'')], [(''id'', ''B'')]] \<rparr>,
       g_edges = \<lparr> columns = [''s'', ''d'', ''index''],
                   rows = [[(''s'', ''A''), (''d'', ''B''), (''index'', ''7'')]] \<rparr>,
       g_node = Some ''id'', g_source = Some ''s'', g_destination = Some ''d'', g_edge = None \<rparr>"

definition plain_request :: "string request" where
  "plain_request =
     \<lparr> nodes = None, hops = Some 1, to_fixed_point = False, direction = ''forward'',
       edge_match = None, source_node_match = None, destination_node_match = None,
       source_node_query = None, destination_node_query = None, edge_query = None,
       return_as_wave_front = False, target_wave_front = None \<rparr>"

text \<open>
  Claim C8. When the graph has no edge-id binding and its edge relation already has a column
  named \<open>index\<close>, \<open>hop\<close> raises a configuration error: the reserved-column error, unless
  one of the two earlier checks (hop budget, direction) has already raised. No result graph
  is built, so the column is never overwritten.
\<close>

theorem hop_index_column_raises:
  assumes "g_edge g = None" and "''index'' \<in> set (columns (g_edges g))"
  shows "hop g r = Inl (ConfigurationError
            (if \<not> to_fixed_point r \<and> hops r = None then Hops_not_int
             else if \<not> valid_direction (direction r) then Invalid_direction
             else Edges_index_column))"
  by (simp add: hop_def prepare_index_column[OF assms])

theorem hop_index_column_raises_witness:
  "g_edge indexed_graph = None \<and> ''index'' \<in> set (columns (g_edges indexed_graph))
   \<and> hop indexed_graph plain_request = Inl (ConfigurationError Edges_index_column)"
  using hop_index_column_raises[of indexed_graph plain_request]
  by (simp add: indexed_graph_def plain_request_def valid_direction_def)

section \<open>Loop invariants\<close>

definition state_of :: "'v outcome \<Rightarrow> 'v state" where
  "state_of oc = (case oc of Break s \<Rightarrow> s | Continue s \<Rightarrow> s)"

declare hop_loop.simps [simp del]

lemma hop_loop_invariant:
  assumes "hop_loop E st0 = Inr st" and "P st0"
    and step: "\<And>s s1 oc. P s \<Longrightarrow> budget E s = Some s1 \<Longrightarrow> iteration E s1 = Inr oc \<Longrightarrow> P (state_of oc)"
  shows "P st"
  using assms
proof (induction E st0 rule: hop_loop.induct)
  case (1 E s)
  note step = "1.prems"(3)
  show ?case
  proof (cases "budget E s")
    case None
    with "1.prems" show ?thesis by (simp add: hop_loop.simps)
  next
    case (Some s1)
    show ?thesis
    proof (cases "iteration E s1")
      case (Inl e)
      with Some "1.prems" show ?thesis by (simp add: hop_loop.simps)
    next
      case (Inr oc)
      from step[OF "1.prems"(2) Some Inr] have P': "P (state_of oc)" .
      show ?thesis
      proof (cases oc)
        case (Break s')
        with Some Inr "1.prems"(1) have "st = s'" by (simp add: hop_loop.simps)
        with P' Break show ?thesis by (simp add: state_of_def)
      next
        case (Continue s')
        with Some Inr "1.prems"(1) have "hop_loop E s' = Inr st" by (simp add: hop_loop.simps)
        moreover from P' Continue have "P s'" by (simp add: state_of_def)
        ultimately show ?thesis using "1.IH"[OF Some Inr Continue _ _ step] by simp
      qed
    qed
  qed
qed

lemma iteration_Inr:
  assumes "iteration E s = Inr oc"
  obtains wfi fwd bwd where "wave_front_iter E s = Inr wfi" "hop_forward E wfi = Inr fwd"
    "hop_reverse E wfi = Inr bwd" "oc = accumulate E (s \<lparr> first_iter := False \<rparr>) fwd bwd"
  using assms by (auto simp: iteration_def split: sum.splits)

lemma hop_forward_Some:
  assumes "hop_forward E wfi = Inr (Some r)"
  shows "set (fst r) \<subseteq> set (candidates E wfi (source E)) \<and> set (snd r) = he_destination ` set (fst r)"
  using assms hop_direction_Inr[of E wfi "source E" he_destination "fst r" "snd r"]
  by (auto simp: hop_forward_def split: if_splits sum.splits)

lemma hop_reverse_Some:
  assumes "hop_reverse E wfi = Inr (Some r)"
  shows "set (fst r) \<subseteq> set (candidates E wfi (destination E)) \<and> set (snd r) = he_source ` set (fst r)"
  using assms hop_direction_Inr[of E wfi "destination E" he_source "fst r" "snd r"]
  by (auto simp: hop_reverse_def split: if_splits sum.splits)

lemma accumulate_matches_edges:
  "matches_edges (state_of (accumulate E s fwd bwd)) =
     drop_duplicates (matches_edges s
       @ if_not_none fwd (\<lambda>r. map he_id (fst r)) @ if_not_none bwd (\<lambda>r. map he_id (fst r)))"
  by (simp add: accumulate_def state_of_def Let_def)

lemma candidates_id: "h \<in> set (candidates E wfi key) \<Longrightarrow> he_id h \<in> fst ` set (indexed E)"
  by (force simp: candidates_iff he_id_def)

lemma iteration_matches_edges:
  assumes "iteration E s = Inr oc" and "set (matches_edges s) \<subseteq> fst ` set (indexed E)"
  shows "set (matches_edges (state_of oc)) \<subseteq> fst ` set (indexed E)"
proof -
  from assms(1) obtain wfi fwd bwd where f: "hop_forward E wfi = Inr fwd"
    and b: "hop_reverse E wfi = Inr bwd"
    and oc: "oc = accumulate E (s \<lparr> first_iter := False \<rparr>) fwd bwd"
    by (rule iteration_Inr)
  have "set (if_not_none fwd (\<lambda>r. map he_id (fst r))) \<subseteq> fst ` set (indexed E)"
    using hop_forward_Some[of E wfi] f candidates_id[of _ E wfi "source E"]
    by (cases fwd) (auto simp: if_not_none_def)
  moreover have "set (if_not_none bwd (\<lambda>r. map he_id (fst r))) \<subseteq> fst ` set (indexed E)"
    using hop_reverse_Some[of E wfi] b candidates_id[of _ E wfi "destination E"]
    by (cases bwd) (auto simp: if_not_none_def)
  ultimately show ?thesis using assms(2) by (simp add: oc accumulate_matches_edges)
qed

lemma budget_matches_edges: "budget E s = Some s1 \<Longrightarrow> matches_edges s1 = matches_edges s"
  by (auto simp: budget_def split: if_splits)

lemma hop_loop_matches_edges:
  assumes "hop_loop E (initial_state r) = Inr st"
  shows "set (matches_edges st) \<subseteq> fst ` set (indexed E)"
proof (rule hop_loop_invariant[OF assms, where P = "\<lambda>s. set (matches_edges s) \<subseteq> fst ` set (indexed E)"])
  show "set (matches_edges (initial_state r)) \<subseteq> fst ` set (indexed E)"
    by (simp add: initial_state_def)
next
  fix s s1 oc
  assume "set (matches_edges s) \<subseteq> fst ` set (indexed E)" "budget E s = Some s1" "iteration E s1 = Inr oc"
  then show "set (matches_edges (state_of oc)) \<subseteq> fst ` set (indexed E)"
    using iteration_matches_edges[of E s1 oc] budget_matches_edges[of E s s1] by simp
qed

lemma map_snd_reset_index: "map snd (reset_index rs) = rs"
  by (simp add: reset_index_def)

lemma map_snd_index_by: "map snd (index_by e rs) = rs"
  by (simp add: index_by_def comp_def)

lemma edges_indexed_Inr:
  assumes "edges_indexed g2 m q = Inr ei"
  shows "map snd ei = filter (passes m q) (rows (g_edges g2))"
  using assms
  by (auto simp: edges_indexed_def map_snd_reset_index map_snd_index_by
      split: option.splits if_splits sum.splits dest!: filter_then_query_Inr)

lemma prepare_Inr_indexed:
  assumes "prepare g r = Inr E"
  shows "map snd (indexed E) = filter (passes (edge_match r) (edge_query r)) (rows (g_edges g))"
proof -
  from assms obtain ei where "edges_indexed (materialize_nodes g) (edge_match r) (edge_query r) = Inr ei"
    and "indexed E = ei"
    by (auto simp: prepare_def Let_def split: if_splits sum.splits option.splits)
  with edges_indexed_Inr[of "materialize_nodes g"] show ?thesis by simp
qed

lemma set_final_edges:
  "set (rows (final_edges g2 ei ms)) = snd ` {ir \<in> set ei. fst ir \<in> set ms}"
  by (auto simp: final_edges_def)

lemma g_edges_hydrate: "g_edges (hydrate g g2 r key ei st) = final_edges g2 ei (matches_edges st)"
  by (simp add: hydrate_def Let_def split: option.splits)

lemma hop_Inr:
  assumes "hop g r = Inr out"
  obtains E st where "prepare g r = Inr E" "hop_loop E (initial_state r) = Inr st"
    "out = hydrate g (materialize_nodes g) r (node E) (indexed E) st"
  using assms by (auto simp: hop_def split: sum.splits)

text \<open>
  Claim C5. \<open>edge_match\<close> and \<open>edge_query\<close> are applied once, to the whole edge relation,
  when the loop's environment is built: the indexed edges are exactly the rows of the edge
  relation that satisfy both. Every iteration draws its edges from the indexed edges, so the
  matched identifiers are identifiers of indexed edges, and every row of the output edge
  relation is a row of the input that satisfies both predicates.
\<close>

theorem edge_predicates_applied_up_front:
  assumes "hop g r = Inr out"
  shows "\<exists>E st. prepare g r = Inr E \<and> hop_loop E (initial_state r) = Inr st
           \<and> map snd (indexed E) = filter (passes (edge_match r) (edge_query r)) (rows (g_edges g))
           \<and> (\<forall>wfi key. \<forall>h \<in> set (candidates E wfi key). he_id h \<in> fst ` set (indexed E))
           \<and> set (matches_edges st) \<subseteq> fst ` set (indexed E)
           \<and> (\<forall>row \<in> set (rows (g_edges out)).
                 row \<in> set (rows (g_edges g)) \<and> passes (edge_match r) (edge_query r) row)"
proof -
  from assms obtain E st where E: "prepare g r = Inr E" and st: "hop_loop E (initial_state r) = Inr st"
    and out: "out = hydrate g (materialize_nodes g) r (node E) (indexed E) st"
    by (rule hop_Inr)
  note ix = prepare_Inr_indexed[OF E]
  have "set (rows (g_edges out)) \<subseteq> snd ` set (indexed E)"
    by (auto simp: out g_edges_hydrate set_final_edges)
  also have "\<dots> = set (map snd (indexed E))" by simp
  finally have "\<forall>row \<in> set (rows (g_edges out)).
      row \<in> set (rows (g_edges g)) \<and> passes (edge_match r) (edge_query r) row"
    unfolding ix by auto
  with E st ix hop_loop_matches_edges[OF st] candidates_id show ?thesis by blast
qed

text \<open>A witness for claim C5: three weighted edges, of which \<open>edge_match\<close> keeps one.\<close>

definition weighted_graph :: "string plottable" where
  "weighted_graph =
     \<lparr> g_nodes = Some \<lparr> columns = [''id''],
                          rows = [[(''id'', ''A'')], [(''id'', ''B'')], [(''id'', ''C'')], [(''id'', ''D'')]] \<rparr>,
       g_edges = \<lparr> columns = [''s'', ''d'', ''weight''],
                   rows = [[(''s'', ''A''), (''d'', ''B''), (''weight'', ''1'')],
                           [(''s'', ''B''), (''d'', ''C''), (''weight'', ''5'')],
                           [(''s'', ''C''), (''d'', ''D''), (''weight'', ''1'')]] \<rparr>,
       g_node = Some ''id'', g_source = Some ''s'', g_destination = Some ''d'', g_edge = None \<rparr>"

definition weight_request :: "string request" where
  "weight_request =
     \<lparr> nodes = None, hops = None, to_fixed_point = True, direction = ''forward'',
       edge_match = Some [(''weight'', ''5'')], source_node_match = None,
       destination_node_match = None, source_node_query = None, destination_node_query = None,
       edge_query = None, return_as_wave_front = False, target_wave_front = None \<rparr>"

definition weighted_out :: "string plottable" where
  "weighted_out =
     \<lparr> g_nodes = Some \<lparr> columns = [''id''], rows = [[(''id'', ''B'')], [(''id'', ''C'')]] \<rparr>,
       g_edges = \<lparr> columns = [''s'', ''d'', ''weight''],
                   rows = [[(''s'', ''B''), (''d'', ''C''), (''weight'', ''5'')]] \<rparr>,
       g_node = Some ''id'', g_source = Some ''s'', g_destination = Some ''d'', g_edge = None \<rparr>"

lemma hop_weighted: "hop weighted_graph weight_request = Inr weighted_out"
  by code_simp

theorem edge_predicates_applied_up_front_witness:
  "hop weighted_graph weight_request = Inr weighted_out
   \<and> (\<exists>E st. prepare weighted_graph weight_request = Inr E
         \<and> hop_loop E (initial_state weight_request) = Inr st
         \<and> map snd (indexed E) = filter (passes (edge_match weight_request) (edge_query weight_request))
                                   (rows (g_edges weighted_graph))
         \<and> set (matches_edges st) \<subseteq> fst ` set (indexed E)
         \<and> set (rows (g_edges weighted_out))
              \<subseteq> {row \<in> set (rows (g_edges weighted_graph)).
                    passes (edge_match weight_request) (edge_query weight_request) row})"
  using edge_predicates_applied_up_front[OF hop_weighted] hop_weighted by blast

section \<open>A hop budget below one\<close>

lemma find_SomeD: "find P xs = Some x \<Longrightarrow> x \<in> set xs \<and> P x"
  by (induction xs) (auto split: if_splits)






lemma rq_prepare: "prepare g r = Inr E \<Longrightarrow> rq E = normalize r"
  by (auto simp: prepare_def Let_def split: if_splits sum.splits option.splits)

lemma normalize_fields [simp]:
  "hops (normalize r) = hops r" "to_fixed_point (normalize r) = to_fixed_point r"
  "direction (normalize r) = direction r" "return_as_wave_front (normalize r) = return_as_wave_front r"
  "source_node_match (normalize r) = source_node_match r"
  "source_node_query (normalize r) = source_node_query r"
  "destination_node_query (normalize r) = destination_node_query r"
  "target_wave_front (normalize r) = target_wave_front r"
  by (simp_all add: normalize_def)





section \<open>Non-unique edge identifiers\<close>

definition dup_graph :: "string plottable" where
  "dup_graph =
     \<lparr> g_nodes = Some \<lparr> columns = [''id''],
                          rows = [[(''id'', ''A'')], [(''id'', ''B'')], [(''id'', ''C'')], [(''id'', ''D'')]] \<rparr>,
       g_edges = \<lparr> columns = [''s'', ''d'', ''eid''],
                   rows = [[(''s'', ''A''), (''d'', ''B''), (''eid'', ''1'')],
                           [(''s'', ''C''), (''d'', ''D''), (''eid'', ''1'')]] \<rparr>,
       g_node = Some ''id'', g_source = Some ''s'', g_destination = Some ''d'',
       g_edge = Some ''eid'' \<rparr>"

definition from_A_request :: "string request" where
  "from_A_request =
     \<lparr> nodes = Some \<lparr> columns = [''id''], rows = [[(''id'', ''A'')]] \<rparr>,
       hops = Some 1, to_fixed_point = False, direction = ''forward'',
       edge_match = None, source_node_match = None, destination_node_match = None,
       source_node_query = None, destination_node_query = None, edge_query = None,
       return_as_wave_front = False, target_wave_front = None \<rparr>"

definition dup_out :: "string plottable" where
  "dup_out =
     \<lparr> g_nodes = Some \<lparr> columns = [''id''], rows = [[(''id'', ''A'')], [(''id'', ''B'')]] \<rparr>,
       g_edges = \<lparr> columns = [''s'', ''d'', ''eid''],
                   rows = [[(''s'', ''A''), (''d'', ''B''), (''eid'', ''1'')],
                           [(''s'', ''C''), (''d'', ''D''), (''eid'', ''1'')]] \<rparr>,
       g_node = Some ''id'', g_source = Some ''s'', g_destination = Some ''d'',
       g_edge = Some ''eid'' \<rparr>"

text \<open>
  Claim C10. \<open>hop\<close> accepts a bound edge-id column whose values repeat. In \<open>dup_graph\<close> the
  edges from A to B and from C to D share the identifier 1. One forward hop from A
  traverses the first edge alone: it is the only candidate, and the only matched identifier
  is 1. Hydration joins the indexed edges back on that identifier, so the output edge
  relation holds both rows, the edge from C to D included.
\<close>

theorem duplicate_edge_id_hydrates_untraversed_edge:
  "hop dup_graph from_A_request = Inr dup_out
   \<and> (case prepare dup_graph from_A_request of
         Inl e \<Rightarrow> False
       | Inr E \<Rightarrow>
           wave_front_iter E (initial_state from_A_request) = Inr [Some ''A'']
           \<and> candidates E [Some ''A''] (source E) = [(Some ''A'', Some ''B'', Bound (Some ''1''))]
           \<and> map_sum id matches_edges (hop_loop E (initial_state from_A_request))
                = Inr [Bound (Some ''1'')])
   \<and> [(''s'', ''C''), (''d'', ''D''), (''eid'', ''1'')] \<in> set (rows (g_edges dup_out))"
  by code_simp

section \<open>The target restriction\<close>










section \<open>Source predicates on intermediate nodes\<close>

definition typed_graph :: "string plottable" where
  "typed_graph =
     \<lparr> g_nodes = Some \<lparr> columns = [''id'', ''type''],
                          rows = [[(''id'', ''A''), (''type'', ''x'')],
                                  [(''id'', ''B''), (''type'', ''x'')],
                                  [(''id'', ''C''), (''type'', ''x'')]] \<rparr>,
       g_edges = \<lparr> columns = [''s'', ''d''],
                   rows = [[(''s'', ''A''), (''d'', ''B'')], [(''s'', ''B''), (''d'', ''C'')]] \<rparr>,
       g_node = Some ''id'', g_source = Some ''s'', g_destination = Some ''d'', g_edge = None \<rparr>"

definition typed_request :: "string request" where
  "typed_request =
     \<lparr> nodes = Some \<lparr> columns = [''id'', ''type''], rows = [[(''id'', ''A''), (''type'', ''x'')]] \<rparr>,
       hops = Some 2, to_fixed_point = False, direction = ''forward'',
       edge_match = None, source_node_match = Some [(''type'', ''x'')],
       destination_node_match = None, source_node_query = None, destination_node_query = None,
       edge_query = None, return_as_wave_front = False, target_wave_front = None \<rparr>"

definition typed_out :: "string plottable" where
  "typed_out =
     \<lparr> g_nodes = Some \<lparr> columns = [''id'', ''type''],
                          rows = [[(''id'', ''A''), (''type'', ''x'')],
                                  [(''id'', ''B''), (''type'', ''x'')]] \<rparr>,
       g_edges = \<lparr> columns = [''s'', ''d''], rows = [[(''s'', ''A''), (''d'', ''B'')]] \<rparr>,
       g_node = Some ''id'', g_source = Some ''s'', g_destination = Some ''d'', g_edge = None \<rparr>"

text \<open>The state in which the second iteration of \<open>hop typed_graph typed_request\<close> starts,
  after its budget check.\<close>

definition typed_second :: "string state" where
  "typed_second =
     \<lparr> hops_remaining = Some 0, wave_front = [Some ''B''],
       matches_nodes = Some [Some ''A'', Some ''B''], matches_edges = [Surrogate 0],
       first_iter = False \<rparr>"

text \<open>
  Claim C2 says that after the first iteration the source predicates see the wavefront
  joined against the full node table. The code joins it against the starting frame
  \<open>nodes\<close>. In \<open>typed_graph\<close> every node has \<open>type = x\<close>; the caller starts from a frame that
  holds the row of A alone and asks for \<open>source_node_match = {type: x}\<close> and two hops. The
  first iteration reaches B and continues into \<open>typed_second\<close>. There B is joined with the
  starting frame, gets a null \<open>type\<close> and fails the match, so the frontier is empty and the
  edge from B to C is never traversed, although B joined with the full node table passes.
\<close>

theorem source_match_joins_starting_frame:
  "hop typed_graph typed_request = Inr typed_out
   \<and> (case prepare typed_graph typed_request of
         Inl e \<Rightarrow> False
       | Inr E \<Rightarrow>
           budget E (initial_state typed_request)
             = Some ((initial_state typed_request) \<lparr> hops_remaining := Some 1 \<rparr>)
           \<and> map_sum id state_of
                (iteration E ((initial_state typed_request) \<lparr> hops_remaining := Some 1 \<rparr>))
              = Inr (typed_second \<lparr> hops_remaining := Some 1 \<rparr>)
           \<and> budget E (typed_second \<lparr> hops_remaining := Some 1 \<rparr>) = Some typed_second
           \<and> wave_front_iter E typed_second = Inr []
           \<and> map_sum id (\<lambda>df. column_ids df ''id'')
                (filter_then_query (merge_left [Some ''B''] (the (g_nodes typed_graph)) ''id'')
                   (source_node_match typed_request) (source_node_query typed_request))
              = Inr [Some ''B''])"
  by code_simp

section \<open>The parts of an iteration\<close>

text \<open>The names of lines 173 to 195, as functions of the two directions' results:
  \<open>new_node_ids\<close>, the root endpoints that seed \<open>matches_nodes\<close> in the first iteration, and
  \<open>matches_nodes\<close> as it stands when \<open>combined_node_ids\<close> is formed.\<close>

definition new_node_ids :: "('v hop_edge list \<times> 'v ids) option \<Rightarrow> ('v hop_edge list \<times> 'v ids) option
    \<Rightarrow> 'v ids" where
  "new_node_ids fwd bwd = drop_duplicates (if_not_none fwd snd @ if_not_none bwd snd)"

definition root_ids :: "('v hop_edge list \<times> 'v ids) option \<Rightarrow> ('v hop_edge list \<times> 'v ids) option
    \<Rightarrow> 'v ids" where
  "root_ids fwd bwd =
     drop_duplicates
       (if_not_none fwd (\<lambda>r. drop_duplicates (map he_source (fst r)))
        @ if_not_none bwd (\<lambda>r. drop_duplicates (map he_destination (fst r))))"

definition seeded :: "'v env \<Rightarrow> 'v state \<Rightarrow> ('v hop_edge list \<times> 'v ids) option
    \<Rightarrow> ('v hop_edge list \<times> 'v ids) option \<Rightarrow> 'v ids" where
  "seeded E st fwd bwd =
     (case matches_nodes st of
        Some m \<Rightarrow> m
      | None \<Rightarrow> if return_as_wave_front (rq E) then [] else root_ids fwd bwd)"

definition traversed_ids :: "('v hop_edge list \<times> 'v ids) option \<Rightarrow> ('v hop_edge list \<times> 'v ids) option
    \<Rightarrow> 'v edge_id list" where
  "traversed_ids fwd bwd =
     if_not_none fwd (\<lambda>r. map he_id (fst r)) @ if_not_none bwd (\<lambda>r. map he_id (fst r))"

text \<open>The result node identifiers a state stands for: line 217 reads \<open>matches_nodes\<close>, and
  the empty frame when it is still \<open>None\<close>.\<close>

definition result_ids :: "'v state \<Rightarrow> 'v ids" where
  "result_ids st = (case matches_nodes st of Some m \<Rightarrow> m | None \<Rightarrow> [])"

lemma accumulate_unfold:
  "accumulate E st fwd bwd =
     (if length (drop_duplicates (seeded E st fwd bwd @ new_node_ids fwd bwd))
          = length (seeded E st fwd bwd)
      then Break (st \<lparr> matches_edges := drop_duplicates (matches_edges st @ traversed_ids fwd bwd),
                       matches_nodes := Some (seeded E st fwd bwd) \<rparr>)
      else Continue (st \<lparr> matches_edges := drop_duplicates (matches_edges st @ traversed_ids fwd bwd),
                          wave_front := new_node_ids fwd bwd,
                          matches_nodes := Some (drop_duplicates
                             (seeded E st fwd bwd @ new_node_ids fwd bwd)) \<rparr>))"
  unfolding accumulate_def seeded_def new_node_ids_def root_ids_def traversed_ids_def Let_def
  by (simp split: option.splits)

text \<open>The loop with a bound on the number of iterations: \<open>None\<close> when the bound is used up
  before the loop has left.\<close>

fun hop_loop_bounded :: "nat \<Rightarrow> 'v env \<Rightarrow> 'v state \<Rightarrow> (error + 'v state) option" where
  "hop_loop_bounded n E st =
     (case budget E st of
        None \<Rightarrow> Some (Inr st)
      | Some st1 \<Rightarrow>
          (case n of
             0 \<Rightarrow> None
           | Suc k \<Rightarrow>
               (case iteration E st1 of
                  Inl e \<Rightarrow> Some (Inl e)
                | Inr (Break st') \<Rightarrow> Some (Inr st')
                | Inr (Continue st') \<Rightarrow> hop_loop_bounded k E st')))"

declare hop_loop_bounded.simps [simp del]

section \<open>Termination and growth of the result\<close>

lemma hop_loop_bounded_enough:
  "progress E (matches_nodes st) < n \<Longrightarrow> hop_loop_bounded n E st = Some (hop_loop E st)"
proof (induction E st arbitrary: n rule: hop_loop.induct)
  case (1 E st)
  show ?case
  proof (cases "budget E st")
    case None
    then show ?thesis by (simp add: hop_loop.simps hop_loop_bounded.simps)
  next
    case (Some st1)
    from "1.prems" obtain k where n: "n = Suc k" by (cases n) auto
    show ?thesis
    proof (cases "iteration E st1")
      case (Inl e)
      with Some n show ?thesis by (simp add: hop_loop.simps hop_loop_bounded.simps)
    next
      case (Inr oc)
      show ?thesis
      proof (cases oc)
        case (Break st')
        with Some Inr n show ?thesis by (simp add: hop_loop.simps hop_loop_bounded.simps)
      next
        case (Continue st')
        from iteration_Continue[of E st1 st'] Inr Continue budget_matches_nodes[OF Some] "1.prems" n
        have "progress E (matches_nodes st') < k" by simp
        from "1.IH"[OF Some Inr Continue this] Some Inr Continue n
        show ?thesis by (simp add: hop_loop.simps hop_loop_bounded.simps)
      qed
    qed
  qed
qed

lemma budget_fixed_point: "to_fixed_point (rq E) \<Longrightarrow> budget E st = Some st"
  by (simp add: budget_def)

lemma budget_result_ids: "budget E s = Some s1 \<Longrightarrow> result_ids s1 = result_ids s"
  by (auto simp: budget_def result_ids_def split: if_splits)

lemma seeded_result_ids: "set (result_ids s) \<subseteq> set (seeded E s fwd bwd)"
  by (simp add: result_ids_def seeded_def split: option.splits)

lemma result_ids_accumulate:
  "set (result_ids s) \<subseteq> set (result_ids (state_of (accumulate E s fwd bwd)))"
  using seeded_result_ids[of s E fwd bwd]
  by (auto simp: accumulate_unfold state_of_def result_ids_def)

lemma iteration_result_ids_mono:
  assumes "iteration E s = Inr oc"
  shows "set (result_ids s) \<subseteq> set (result_ids (state_of oc))"
proof -
  from assms obtain wfi fwd bwd where "oc = accumulate E (s \<lparr> first_iter := False \<rparr>) fwd bwd"
    by (rule iteration_Inr)
  with result_ids_accumulate[of "s \<lparr> first_iter := False \<rparr>" E fwd bwd] show ?thesis
    by (simp add: result_ids_def)
qed

lemma hop_forward_roots:
  assumes "hop_forward E wfi = Inr fwd"
  shows "set (if_not_none fwd (\<lambda>r. drop_duplicates (map he_source (fst r)))) \<subseteq> endpoints E"
proof (cases fwd)
  case None
  then show ?thesis by (simp add: if_not_none_def)
next
  case (Some r)
  with hop_forward_Some[of E wfi r] assms candidates_endpoints[of _ E wfi "source E"]
  show ?thesis by (auto simp: if_not_none_def)
qed

lemma hop_reverse_roots:
  assumes "hop_reverse E wfi = Inr bwd"
  shows "set (if_not_none bwd (\<lambda>r. drop_duplicates (map he_destination (fst r)))) \<subseteq> endpoints E"
proof (cases bwd)
  case None
  then show ?thesis by (simp add: if_not_none_def)
next
  case (Some r)
  with hop_reverse_Some[of E wfi r] assms candidates_endpoints[of _ E wfi "destination E"]
  show ?thesis by (auto simp: if_not_none_def)
qed

lemma iteration_result_ids_bounded:
  assumes "iteration E s = Inr oc" and "set (result_ids s) \<subseteq> endpoints E"
  shows "set (result_ids (state_of oc)) \<subseteq> endpoints E"
proof -
  from assms(1) obtain wfi fwd bwd where f: "hop_forward E wfi = Inr fwd"
    and b: "hop_reverse E wfi = Inr bwd"
    and oc: "oc = accumulate E (s \<lparr> first_iter := False \<rparr>) fwd bwd"
    by (rule iteration_Inr)
  have new: "set (new_node_ids fwd bwd) \<subseteq> endpoints E"
    using hop_forward_new_ids[OF f] hop_reverse_new_ids[OF b] by (simp add: new_node_ids_def)
  have "set (root_ids fwd bwd) \<subseteq> endpoints E"
    using hop_forward_roots[OF f] hop_reverse_roots[OF b] by (simp add: root_ids_def)
  with assms(2) have "set (seeded E (s \<lparr> first_iter := False \<rparr>) fwd bwd) \<subseteq> endpoints E"
    by (auto simp: seeded_def result_ids_def split: option.splits)
  with new show ?thesis
    by (auto simp: oc accumulate_unfold state_of_def result_ids_def)
qed

lemma hop_loop_result_bounded:
  assumes "hop_loop E (initial_state r) = Inr st"
  shows "set (result_ids st) \<subseteq> endpoints E"
proof (rule hop_loop_invariant[OF assms, where P = "\<lambda>s. set (result_ids s) \<subseteq> endpoints E"])
  show "set (result_ids (initial_state r)) \<subseteq> endpoints E"
    by (simp add: result_ids_def initial_state_def)
next
  fix s s1 oc
  assume "set (result_ids s) \<subseteq> endpoints E" "budget E s = Some s1" "iteration E s1 = Inr oc"
  then show "set (result_ids (state_of oc)) \<subseteq> endpoints E"
    using iteration_result_ids_bounded[of E s1 oc] budget_result_ids[of E s s1] by simp
qed

lemma prepare_endpoints:
  assumes "prepare g r = Inr E"
  shows "endpoints E \<subseteq> set (endpoint_ids (rows (g_edges g)) (source E) (destination E))"
  unfolding endpoints_def prepare_Inr_indexed[OF assms]
  by (auto simp: endpoint_ids_def)

lemma result_ids_distinct_accumulate:
  assumes "distinct (result_ids s)"
  shows "distinct (result_ids (state_of (accumulate E s fwd bwd)))"
  using assms
  by (auto simp: accumulate_unfold state_of_def result_ids_def seeded_def root_ids_def
      split: option.splits)

lemma hop_loop_result_distinct:
  assumes "hop_loop E (initial_state r) = Inr st"
  shows "distinct (result_ids st)"
proof (rule hop_loop_invariant[OF assms, where P = "\<lambda>s. distinct (result_ids s)"])
  show "distinct (result_ids (initial_state r))"
    by (simp add: result_ids_def initial_state_def)
next
  fix s s1 oc
  assume d: "distinct (result_ids s)" and b: "budget E s = Some s1" and i: "iteration E s1 = Inr oc"
  from i obtain wfi fwd bwd where oc: "oc = accumulate E (s1 \<lparr> first_iter := False \<rparr>) fwd bwd"
    by (rule iteration_Inr)
  from d budget_result_ids[OF b] have "distinct (result_ids (s1 \<lparr> first_iter := False \<rparr>))"
    by (simp add: result_ids_def)
  then show "distinct (result_ids (state_of oc))"
    unfolding oc by (rule result_ids_distinct_accumulate)
qed

definition chain_graph :: "string plottable" where
  "chain_graph =
     \<lparr> g_nodes = Some \<lparr> columns = [''id''],
                          rows = [[(''id'', ''A'')], [(''id'', ''B'')], [(''id'', ''C'')], [(''id'', ''D'')]] \<rparr>,
       g_edges = \<lparr> columns = [''s'', ''d''],
                   rows = [[(''s'', ''A''), (''d'', ''B'')], [(''s'', ''B''), (''d'', ''C'')],
                           [(''s'', ''C''), (''d'', ''D'')]] \<rparr>,
       g_node = Some ''id'', g_source = Some ''s'', g_destination = Some ''d'', g_edge = None \<rparr>"

definition closure_request :: "string request" where
  "closure_request = from_A_request \<lparr> hops := None, to_fixed_point := True \<rparr>"

definition chain_env :: "string env" where
  "chain_env =
     \<lparr> rq = closure_request, node = ''id'', source = ''s'', destination = ''d'',
       start_nodes = \<lparr> columns = [''id''], rows = [[(''id'', ''A'')]] \<rparr>,
       indexed = [(Surrogate 0, [(''s'', ''A''), (''d'', ''B'')]),
                  (Surrogate 1, [(''s'', ''B''), (''d'', ''C'')]),
                  (Surrogate 2, [(''s'', ''C''), (''d'', ''D'')])],
       base_target_nodes = the (g_nodes chain_graph) \<rparr>"

lemma prepare_chain: "prepare chain_graph closure_request = Inr chain_env"
  by (simp add: prepare_def chain_graph_def closure_request_def from_A_request_def chain_env_def
      valid_direction_def edges_indexed_def filter_then_query_def filter_by_dict_def
      query_if_not_none_def reset_index_def normalize_def materialize_nodes_def upt_rec)

text \<open>
  Claim C4. In fixed-point mode the loop terminates: run with a bound of
  \<open>2 * card (endpoints E) + 3\<close> iterations it leaves before the bound is used up, with the
  result of the unbounded loop. In that mode the budget check never leaves the loop, so the
  only exit is the fixed-point check of an iteration: \<open>accumulate\<close> breaks exactly when
  \<open>combined_node_ids\<close> is as long as \<open>matches_nodes\<close>, and then \<open>wave_front\<close> is left as it
  was. Across an iteration the result node set only grows. The final result has no
  duplicates and holds endpoints of edges only, so its size is at most the number of distinct
  edge endpoints, and at most the number of rows of the node table when the table lists every
  endpoint.
\<close>

theorem fixed_point_terminates:
  assumes "prepare g r = Inr E" and "to_fixed_point r"
  shows "hop_loop_bounded (2 * card (endpoints E) + 3) E (initial_state r)
           = Some (hop_loop E (initial_state r))
         \<and> (\<forall>s. budget E s = Some s)
         \<and> (\<forall>s oc. iteration E s = Inr oc
               \<longrightarrow> set (result_ids s) \<subseteq> set (result_ids (state_of oc)))
         \<and> (\<forall>s fwd bwd. accumulate E s fwd bwd =
               (if length (drop_duplicates (seeded E s fwd bwd @ new_node_ids fwd bwd))
                     = length (seeded E s fwd bwd)
                then Break (s \<lparr> matches_edges := drop_duplicates (matches_edges s @ traversed_ids fwd bwd),
                                matches_nodes := Some (seeded E s fwd bwd) \<rparr>)
                else Continue (s \<lparr> matches_edges := drop_duplicates (matches_edges s @ traversed_ids fwd bwd),
                                   wave_front := new_node_ids fwd bwd,
                                   matches_nodes := Some (drop_duplicates
                                      (seeded E s fwd bwd @ new_node_ids fwd bwd)) \<rparr>)))
         \<and> (\<forall>st. hop_loop E (initial_state r) = Inr st
               \<longrightarrow> distinct (result_ids st)
                   \<and> set (result_ids st)
                       \<subseteq> set (endpoint_ids (rows (g_edges g)) (source E) (destination E))
                   \<and> length (result_ids st)
                       \<le> card (set (endpoint_ids (rows (g_edges g)) (source E) (destination E)))
                   \<and> (\<forall>n. g_nodes (materialize_nodes g) = Some n
                          \<and> set (endpoint_ids (rows (g_edges g)) (source E) (destination E))
                              \<subseteq> set (column_ids n (node E))
                        \<longrightarrow> length (result_ids st) \<le> length (rows n)))"
proof -
  have fp: "to_fixed_point (rq E)"
    using rq_prepare[OF assms(1)] assms(2) by simp
  have "progress E (matches_nodes (initial_state r)) < 2 * card (endpoints E) + 3"
    by (simp add: progress_def initial_state_def)
  then have bounded: "hop_loop_bounded (2 * card (endpoints E) + 3) E (initial_state r)
      = Some (hop_loop E (initial_state r))"
    by (rule hop_loop_bounded_enough)
  let ?U = "set (endpoint_ids (rows (g_edges g)) (source E) (destination E))"
  have fin: "distinct (result_ids st) \<and> set (result_ids st) \<subseteq> ?U \<and> length (result_ids st) \<le> card ?U
      \<and> (\<forall>n. g_nodes (materialize_nodes g) = Some n \<and> ?U \<subseteq> set (column_ids n (node E))
            \<longrightarrow> length (result_ids st) \<le> length (rows n))"
    if st: "hop_loop E (initial_state r) = Inr st" for st
  proof -
    note d = hop_loop_result_distinct[OF st]
    from hop_loop_result_bounded[OF st] prepare_endpoints[OF assms(1)]
    have sub: "set (result_ids st) \<subseteq> ?U" by blast
    from d have len: "length (result_ids st) = card (set (result_ids st))"
      by (simp add: distinct_card)
    have le: "card (set (result_ids st)) \<le> card ?U"
      using sub by (simp add: card_mono)
    have "length (result_ids st) \<le> length (rows n)"
      if "?U \<subseteq> set (column_ids n (node E))" for n
    proof -
      have "card ?U \<le> card (set (column_ids n (node E)))"
        using that by (simp add: card_mono)
      also have "\<dots> \<le> length (column_ids n (node E))" by (rule card_length)
      also have "\<dots> = length (rows n)" by (simp add: column_ids_def)
      finally show ?thesis using len le by simp
    qed
    with d sub len le show ?thesis by simp
  qed
  show ?thesis
    using bounded budget_fixed_point[OF fp] iteration_result_ids_mono accumulate_unfold fin
    by blast
qed

theorem fixed_point_terminates_witness:
  "prepare chain_graph closure_request = Inr chain_env \<and> to_fixed_point closure_request
   \<and> hop_loop_bounded (2 * card (endpoints chain_env) + 3) chain_env (initial_state closure_request)
       = Some (hop_loop chain_env (initial_state closure_request))
   \<and> hop_loop_bounded 4 chain_env (initial_state closure_request)
       = Some (Inr \<lparr> hops_remaining = None, wave_front = [Some ''D''],
                         matches_nodes = Some [Some ''A'', Some ''B'', Some ''C'', Some ''D''],
                         matches_edges = [Surrogate 0, Surrogate 1, Surrogate 2],
                         first_iter = False \<rparr>)
   \<and> hop chain_graph closure_request = Inr chain_graph"
proof -
  have fp: "to_fixed_point closure_request"
    by (simp add: closure_request_def)
  have run: "hop_loop_bounded 4 chain_env (initial_state closure_request)
       = Some (Inr \<lparr> hops_remaining = None, wave_front = [Some ''D''],
                         matches_nodes = Some [Some ''A'', Some ''B'', Some ''C'', Some ''D''],
                         matches_edges = [Surrogate 0, Surrogate 1, Surrogate 2],
                         first_iter = False \<rparr>)"
    by code_simp
  have out: "hop chain_graph closure_request = Inr chain_graph"
    by code_simp
  from fixed_point_terminates[OF prepare_chain fp] prepare_chain fp run out
  show ?thesis by blast
qed

section \<open>Roots of the first hop\<close>


lemma same_length_subset:
  assumes "distinct xs" and "length (drop_duplicates (xs @ ys)) = length xs"
  shows "set ys \<subseteq> set xs"
proof -
  from assms have "card (set xs \<union> set ys) = card (set xs)"
    by (simp add: length_drop_duplicates distinct_card)
  then have "set xs = set xs \<union> set ys"
    by (intro card_subset_eq) simp_all
  then show ?thesis by auto
qed

lemma distinct_seeded:
  "matches_nodes s = None \<Longrightarrow> distinct (seeded E s fwd bwd)"
  by (simp add: seeded_def root_ids_def)

lemma result_ids_first_accumulate:
  assumes "matches_nodes s = None"
  shows "set (result_ids (state_of (accumulate E s fwd bwd)))
           = set (seeded E s fwd bwd) \<union> set (new_node_ids fwd bwd)"
  using same_length_subset[OF distinct_seeded[OF assms, of E fwd bwd], of "new_node_ids fwd bwd"]
  by (auto simp: accumulate_unfold state_of_def result_ids_def)

lemma hop_loop_unroll:
  assumes "hop_loop E s = Inr st" and "budget E s = Some s1" and "iteration E s1 = Inr oc"
  shows "oc = Break st \<or> (\<exists>s'. oc = Continue s' \<and> hop_loop E s' = Inr st)"
  using assms by (cases oc) (simp_all add: hop_loop.simps)

lemma hop_loop_result_ids_mono:
  assumes "hop_loop E s = Inr st"
  shows "set (result_ids s) \<subseteq> set (result_ids st)"
proof (rule hop_loop_invariant[OF assms, where P = "\<lambda>x. set (result_ids s) \<subseteq> set (result_ids x)"])
  show "set (result_ids s) \<subseteq> set (result_ids s)" by simp
next
  fix x x1 oc
  assume "set (result_ids s) \<subseteq> set (result_ids x)" "budget E x = Some x1" "iteration E x1 = Inr oc"
  then show "set (result_ids s) \<subseteq> set (result_ids (state_of oc))"
    using iteration_result_ids_mono[of E x1 oc] budget_result_ids[of E x x1] by auto
qed

lemma first_iteration_result:
  assumes loop: "hop_loop E s = Inr st" and b: "budget E s = Some s1"
    and it: "iteration E s1 = Inr oc"
  shows "set (result_ids (state_of oc)) \<subseteq> set (result_ids st)"
proof -
  from hop_loop_unroll[OF loop b it] show ?thesis
  proof
    assume "oc = Break st"
    then show ?thesis by (simp add: state_of_def)
  next
    assume "\<exists>s'. oc = Continue s' \<and> hop_loop E s' = Inr st"
    then obtain s' where "oc = Continue s'" "hop_loop E s' = Inr st" by blast
    with hop_loop_result_ids_mono[of E s' st] show ?thesis by (simp add: state_of_def)
  qed
qed















section \<open>Undirected traversal against the two directions\<close>

text \<open>The node set of a result graph: the rows of its node relation.\<close>

definition node_rows :: "'v plottable \<Rightarrow> 'v row set" where
  "node_rows g = (case g_nodes g of None \<Rightarrow> {} | Some f \<Rightarrow> set (rows f))"

definition fork_graph :: "string plottable" where
  "fork_graph =
     \<lparr> g_nodes = Some \<lparr> columns = [''id''],
                          rows = [[(''id'', ''A'')], [(''id'', ''B'')], [(''id'', ''C'')]] \<rparr>,
       g_edges = \<lparr> columns = [''s'', ''d''],
                   rows = [[(''s'', ''A''), (''d'', ''B'')], [(''s'', ''C''), (''d'', ''B'')]] \<rparr>,
       g_node = Some ''id'', g_source = Some ''s'', g_destination = Some ''d'', g_edge = None \<rparr>"

definition two_hops_request :: "string request" where
  "two_hops_request = from_A_request \<lparr> hops := Some 2 \<rparr>"

definition fork_forward_out :: "string plottable" where
  "fork_forward_out =
     fork_graph \<lparr> g_nodes := Some \<lparr> columns = [''id''],
                                       rows = [[(''id'', ''A'')], [(''id'', ''B'')]] \<rparr>,
                   g_edges := \<lparr> columns = [''s'', ''d''],
                               rows = [[(''s'', ''A''), (''d'', ''B'')]] \<rparr> \<rparr>"

definition fork_reverse_out :: "string plottable" where
  "fork_reverse_out =
     fork_graph \<lparr> g_nodes := Some \<lparr> columns = [''id''], rows = [] \<rparr>,
                   g_edges := \<lparr> columns = [''s'', ''d''], rows = [] \<rparr> \<rparr>"

text \<open>
  Claim C1 says that for every hop budget the undirected result node set is the union of the
  forward and the reverse result node sets. An undirected path may change direction: in
  \<open>fork_graph\<close>, with edges from A to B and from C to B, two undirected hops from A reach C
  over B, while two forward hops stop at B and the reverse traversal from A matches nothing.
\<close>

theorem undirected_union_counterexample:
  "hop fork_graph (two_hops_request \<lparr> direction := ''undirected'' \<rparr>) = Inr fork_graph
   \<and> hop fork_graph (two_hops_request \<lparr> direction := ''forward'' \<rparr>) = Inr fork_forward_out
   \<and> hop fork_graph (two_hops_request \<lparr> direction := ''reverse'' \<rparr>) = Inr fork_reverse_out
   \<and> node_rows fork_graph \<noteq> node_rows fork_forward_out \<union> node_rows fork_reverse_out"
  by code_simp

lemma normalize_direction:
  "normalize (r \<lparr> direction := d \<rparr>) = (normalize r) \<lparr> direction := d \<rparr>"
  by (simp add: normalize_def)

lemma prepare_direction:
  assumes "prepare g r = Inr E" and "valid_direction d"
  shows "prepare g (r \<lparr> direction := d \<rparr>) = Inr (E \<lparr> rq := (rq E) \<lparr> direction := d \<rparr> \<rparr>)"
  using assms
  by (auto simp: prepare_def Let_def normalize_direction split: if_splits sum.splits option.splits)

definition redirect :: "'v env \<Rightarrow> string \<Rightarrow> 'v env" where
  "redirect E d = E \<lparr> rq := (rq E) \<lparr> direction := d \<rparr> \<rparr>"

lemma redirect_fields [simp]:
  "node (redirect E d) = node E" "source (redirect E d) = source E"
  "destination (redirect E d) = destination E" "indexed (redirect E d) = indexed E"
  "start_nodes (redirect E d) = start_nodes E" "base_target_nodes (redirect E d) = base_target_nodes E"
  "direction (rq (redirect E d)) = d"
  "return_as_wave_front (rq (redirect E d)) = return_as_wave_front (rq E)"
  "to_fixed_point (rq (redirect E d)) = to_fixed_point (rq E)"
  by (simp_all add: redirect_def)

lemma wave_front_iter_redirect: "wave_front_iter (redirect E d) s = wave_front_iter E s"
  by (simp add: wave_front_iter_def redirect_def cong: sum.case_cong)

lemma filter_new_node_ids_redirect: "filter_new_node_ids (redirect E d) ns = filter_new_node_ids E ns"
  by (simp add: filter_new_node_ids_def redirect_def cong: sum.case_cong)

lemma has_destination_predicate_redirect:
  "has_destination_predicate (redirect E d) = has_destination_predicate E"
  by (simp add: has_destination_predicate_def redirect_def)

lemma hop_direction_redirect: "hop_direction (redirect E d) wfi key far = hop_direction E wfi key far"
  by (simp add: hop_direction_def has_destination_predicate_redirect filter_new_node_ids_redirect
      Let_def cong: if_cong)

lemma hop_forward_redirect:
  "hop_forward (redirect E d) wfi =
     (if d = ''forward'' \<or> d = ''undirected'' then
        (case hop_direction E wfi (source E) he_destination of
           Inl e \<Rightarrow> Inl e | Inr r \<Rightarrow> Inr (Some r))
      else Inr None)"
  by (simp add: hop_forward_def hop_direction_redirect)

lemma hop_reverse_redirect:
  "hop_reverse (redirect E d) wfi =
     (if d = ''reverse'' \<or> d = ''undirected'' then
        (case hop_direction E wfi (destination E) he_source of
           Inl e \<Rightarrow> Inl e | Inr r \<Rightarrow> Inr (Some r))
      else Inr None)"
  by (simp add: hop_reverse_def hop_direction_redirect)

lemma seeded_redirect: "seeded (redirect E d) s fwd bwd = seeded E s fwd bwd"
  by (simp add: seeded_def)

lemma set_new_node_ids_both:
  "set (new_node_ids (Some rf) (Some rb))
     = set (new_node_ids (Some rf) None) \<union> set (new_node_ids None (Some rb))"
  by (simp add: new_node_ids_def if_not_none_def)

lemma set_root_ids_both:
  "set (root_ids (Some rf) (Some rb)) = set (root_ids (Some rf) None) \<union> set (root_ids None (Some rb))"
  by (simp add: root_ids_def if_not_none_def)

lemma set_seeded_both:
  assumes "matches_nodes s = None"
  shows "set (seeded E s (Some rf) (Some rb))
           = set (seeded E s (Some rf) None) \<union> set (seeded E s None (Some rb))"
  using assms by (simp add: seeded_def set_root_ids_both)

lemma single_iteration_union:
  assumes none: "matches_nodes s = None"
    and u: "iteration (redirect E ''undirected'') s = Inr oc_u"
  shows "\<exists>oc_f oc_r. iteration (redirect E ''forward'') s = Inr oc_f
           \<and> iteration (redirect E ''reverse'') s = Inr oc_r
           \<and> set (result_ids (state_of oc_u))
               = set (result_ids (state_of oc_f)) \<union> set (result_ids (state_of oc_r))"
proof -
  let ?s = "s \<lparr> first_iter := False \<rparr>"
  have none': "matches_nodes ?s = None" using none by simp
  from u obtain wfi rf rb where w: "wave_front_iter E s = Inr wfi"
    and f: "hop_direction E wfi (source E) he_destination = Inr rf"
    and r: "hop_direction E wfi (destination E) he_source = Inr rb"
    and oc: "oc_u = accumulate (redirect E ''undirected'') ?s (Some rf) (Some rb)"
    by (auto simp: iteration_def wave_front_iter_redirect hop_forward_redirect hop_reverse_redirect
        split: sum.splits)
  have itf: "iteration (redirect E ''forward'') s
      = Inr (accumulate (redirect E ''forward'') ?s (Some rf) None)"
    using w f by (simp add: iteration_def wave_front_iter_redirect hop_forward_redirect
        hop_reverse_redirect)
  have itr: "iteration (redirect E ''reverse'') s
      = Inr (accumulate (redirect E ''reverse'') ?s None (Some rb))"
    using w r by (simp add: iteration_def wave_front_iter_redirect hop_forward_redirect
        hop_reverse_redirect)
  have "set (result_ids (state_of oc_u))
      = set (result_ids (state_of (accumulate (redirect E ''forward'') ?s (Some rf) None)))
        \<union> set (result_ids (state_of (accumulate (redirect E ''reverse'') ?s None (Some rb))))"
    unfolding oc result_ids_first_accumulate[OF none'] seeded_redirect
      set_seeded_both[OF none'] set_new_node_ids_both
    by blast
  with itf itr show ?thesis by blast
qed

lemma iteration_hops_remaining:
  assumes "iteration E s = Inr oc"
  shows "hops_remaining (state_of oc) = hops_remaining s"
proof -
  from assms obtain wfi fwd bwd where "oc = accumulate E (s \<lparr> first_iter := False \<rparr>) fwd bwd"
    by (rule iteration_Inr)
  then show ?thesis by (simp add: accumulate_unfold state_of_def)
qed

lemma hop_loop_zero:
  assumes "\<not> to_fixed_point (rq E)" and "hops_remaining s = Some h" and "h < 1"
  shows "hop_loop E s = Inr s"
  using assms by (simp add: hop_loop.simps budget_def)

lemma hop_loop_one:
  assumes "\<not> to_fixed_point (rq E)" and "hops_remaining s = Some 1"
  shows "hop_loop E s = map_sum id state_of (iteration E (s \<lparr> hops_remaining := Some 0 \<rparr>))"
proof -
  let ?s1 = "s \<lparr> hops_remaining := Some 0 \<rparr>"
  have b: "budget E s = Some ?s1" using assms by (simp add: budget_def)
  show ?thesis
  proof (cases "iteration E ?s1")
    case (Inl e)
    with b show ?thesis by (simp add: hop_loop.simps)
  next
    case (Inr oc)
    show ?thesis
    proof (cases oc)
      case (Break s')
      with Inr b show ?thesis by (simp add: hop_loop.simps state_of_def)
    next
      case (Continue s')
      from iteration_hops_remaining[OF Inr] Continue have "hops_remaining s' = Some 0"
        by (simp add: state_of_def)
      from hop_loop_zero[OF assms(1) this] have "hop_loop E s' = Inr s'" by simp
      with Inr Continue b show ?thesis by (simp add: hop_loop.simps[of E s] state_of_def)
    qed
  qed
qed

lemma redirect_same: "direction (rq E) = d \<Longrightarrow> redirect E d = E"
  by (simp add: redirect_def)

lemma node_rows_hydrate:
  "node_rows (hydrate g g2 r key ei st) =
     (case g_nodes g of
        None \<Rightarrow> node_rows g2
      | Some ns \<Rightarrow>
          {row \<in> set (rows (case target_wave_front r of Some t \<Rightarrow> t | None \<Rightarrow> ns)).
             map_of row key \<in> set (result_ids st)})"
  by (auto simp: hydrate_def final_nodes_def node_rows_def result_ids_def Let_def
      set_merge_inner_rows split: option.splits)

lemma node_rows_hydrate_union:
  assumes "set (result_ids st) = set (result_ids st1) \<union> set (result_ids st2)"
    and "target_wave_front r1 = target_wave_front r" and "target_wave_front r2 = target_wave_front r"
  shows "node_rows (hydrate g g2 r key ei st)
           = node_rows (hydrate g g2 r1 key ei st1) \<union> node_rows (hydrate g g2 r2 key ei st2)"
  unfolding node_rows_hydrate using assms by (auto split: option.splits)

lemma hop_redirect:
  assumes "prepare g r = Inr E" and "valid_direction d"
  shows "hop g (r \<lparr> direction := d \<rparr>) =
           (case hop_loop (redirect E d) (initial_state r) of
              Inl e \<Rightarrow> Inl e
            | Inr st \<Rightarrow> Inr (hydrate g (materialize_nodes g) (r \<lparr> direction := d \<rparr>) (node E) (indexed E) st))"
  using prepare_direction[OF assms]
  by (simp add: hop_def redirect_def initial_state_def cong: sum.case_cong)

text \<open>
  Claim C1, amended. With fixed-point mode off and a hop budget of at most one, so that at
  most one iteration runs, an undirected \<open>hop\<close> that returns is matched by a forward and a
  reverse \<open>hop\<close> on the same inputs that return as well, and the undirected result node set
  is the union of theirs.
\<close>

theorem undirected_single_hop_union:
  assumes "hops r = Some h" and "h \<le> 1" and "\<not> to_fixed_point r"
    and "hop g (r \<lparr> direction := ''undirected'' \<rparr>) = Inr out_u"
  shows "\<exists>out_f out_r. hop g (r \<lparr> direction := ''forward'' \<rparr>) = Inr out_f
           \<and> hop g (r \<lparr> direction := ''reverse'' \<rparr>) = Inr out_r
           \<and> node_rows out_u = node_rows out_f \<union> node_rows out_r"
proof -
  let ?ru = "r \<lparr> direction := ''undirected'' \<rparr>"
  let ?g2 = "materialize_nodes g"
  from assms(4) obtain E st_u where prep: "prepare g ?ru = Inr E"
    and loop: "hop_loop E (initial_state ?ru) = Inr st_u"
    and out: "out_u = hydrate g ?g2 ?ru (node E) (indexed E) st_u"
    by (rule hop_Inr)
  have init: "initial_state ?ru = initial_state r" by (simp add: initial_state_def)
  have rq: "rq E = normalize ?ru" by (rule rq_prepare[OF prep])
  then have dir: "direction (rq E) = ''undirected''" and nfp: "\<not> to_fixed_point (rq E)"
    using assms(3) by simp_all
  have nfp': "\<not> to_fixed_point (rq (redirect E d))" for d using nfp by simp
  have hop_d: "hop g (r \<lparr> direction := d \<rparr>) =
      (case hop_loop (redirect E d) (initial_state r) of
         Inl e \<Rightarrow> Inl e
       | Inr st \<Rightarrow> Inr (hydrate g ?g2 (r \<lparr> direction := d \<rparr>) (node E) (indexed E) st))"
    if "valid_direction d" for d
    using hop_redirect[OF prep that] by (simp add: init cong: sum.case_cong)
  have vf: "valid_direction ''forward''" and vr: "valid_direction ''reverse''"
    by (simp_all add: valid_direction_def)
  have hr: "hops_remaining (initial_state r) = Some h"
    using assms(1) by (simp add: initial_state_def)
  have "\<exists>st_f st_r. hop_loop (redirect E ''forward'') (initial_state r) = Inr st_f
      \<and> hop_loop (redirect E ''reverse'') (initial_state r) = Inr st_r
      \<and> set (result_ids st_u) = set (result_ids st_f) \<union> set (result_ids st_r)"
  proof (cases "h < 1")
    case True
    from hop_loop_zero[OF nfp hr True] loop init have "st_u = initial_state r" by simp
    with hop_loop_zero[OF nfp' hr True] show ?thesis by simp
  next
    case False
    with assms(2) have h: "h = 1" by simp
    let ?s0 = "(initial_state r) \<lparr> hops_remaining := Some 0 \<rparr>"
    have none: "matches_nodes ?s0 = None" by (simp add: initial_state_def)
    from hop_loop_one[OF nfp hr[unfolded h]] loop init
    obtain oc_u where itu: "iteration E ?s0 = Inr oc_u" and st_u: "st_u = state_of oc_u"
      by (cases "iteration E ?s0") auto
    from itu have "iteration (redirect E ''undirected'') ?s0 = Inr oc_u"
      by (simp add: redirect_same[OF dir])
    from single_iteration_union[OF none this] obtain oc_f oc_r
      where itf: "iteration (redirect E ''forward'') ?s0 = Inr oc_f"
        and itr: "iteration (redirect E ''reverse'') ?s0 = Inr oc_r"
        and un: "set (result_ids (state_of oc_u))
                  = set (result_ids (state_of oc_f)) \<union> set (result_ids (state_of oc_r))"
      by blast
    from hop_loop_one[OF nfp' hr[unfolded h]] itf itr un st_u show ?thesis by simp
  qed
  then obtain st_f st_r where lf: "hop_loop (redirect E ''forward'') (initial_state r) = Inr st_f"
    and lr: "hop_loop (redirect E ''reverse'') (initial_state r) = Inr st_r"
    and un: "set (result_ids st_u) = set (result_ids st_f) \<union> set (result_ids st_r)"
    by blast
  let ?of = "hydrate g ?g2 (r \<lparr> direction := ''forward'' \<rparr>) (node E) (indexed E) st_f"
  let ?or = "hydrate g ?g2 (r \<lparr> direction := ''reverse'' \<rparr>) (node E) (indexed E) st_r"
  have "hop g (r \<lparr> direction := ''forward'' \<rparr>) = Inr ?of"
    "hop g (r \<lparr> direction := ''reverse'' \<rparr>) = Inr ?or"
    using hop_d[OF vf] hop_d[OF vr] lf lr by simp_all
  moreover have "node_rows out_u = node_rows ?of \<union> node_rows ?or"
    unfolding out by (rule node_rows_hydrate_union[OF un]) simp_all
  ultimately show ?thesis by blast
qed

definition from_B_request :: "string request" where
  "from_B_request = from_A_request \<lparr> nodes := Some \<lparr> columns = [''id''], rows = [[(''id'', ''B'')]] \<rparr> \<rparr>"

definition around_B_out :: "string plottable" where
  "around_B_out =
     chain_graph \<lparr> g_nodes := Some \<lparr> columns = [''id''],
                                        rows = [[(''id'', ''A'')], [(''id'', ''B'')], [(''id'', ''C'')]] \<rparr>,
                    g_edges := \<lparr> columns = [''s'', ''d''],
                                rows = [[(''s'', ''A''), (''d'', ''B'')], [(''s'', ''B''), (''d'', ''C'')]] \<rparr> \<rparr>"

theorem undirected_single_hop_union_witness:
  "hops from_B_request = Some 1 \<and> \<not> to_fixed_point from_B_request
   \<and> hop chain_graph (from_B_request \<lparr> direction := ''undirected'' \<rparr>) = Inr around_B_out
   \<and> node_rows around_B_out = {[(''id'', ''A'')], [(''id'', ''B'')], [(''id'', ''C'')]}
   \<and> (\<exists>out_f out_r. hop chain_graph (from_B_request \<lparr> direction := ''forward'' \<rparr>) = Inr out_f
         \<and> hop chain_graph (from_B_request \<lparr> direction := ''reverse'' \<rparr>) = Inr out_r
         \<and> node_rows around_B_out = node_rows out_f \<union> node_rows out_r)"
proof -
  have h: "hops from_B_request = Some 1" and f: "\<not> to_fixed_point from_B_request"
    by (simp_all add: from_B_request_def from_A_request_def)
  have u: "hop chain_graph (from_B_request \<lparr> direction := ''undirected'' \<rparr>) = Inr around_B_out"
    by code_simp
  have n: "node_rows around_B_out = {[(''id'', ''A'')], [(''id'', ''B'')], [(''id'', ''C'')]}"
    by (simp add: node_rows_def around_B_out_def)
  from undirected_single_hop_union[OF h _ f u] h f u n show ?thesis by simp
qed

section \<open>Running \<open>hop\<close> on its own output\<close>

text \<open>When the predicates of a filter can be evaluated on a frame: the fields they read are
  columns of the frame.\<close>

definition fields_ok :: "string list \<Rightarrow> 'v dict option \<Rightarrow> 'v query option \<Rightarrow> bool" where
  "fields_ok cols d q =
     ((case d of None \<Rightarrow> True | Some m \<Rightarrow> list_all (\<lambda>kv. fst kv \<in> set cols) m)
      \<and> (case q of None \<Rightarrow> True | Some e \<Rightarrow> list_all (\<lambda>k. k \<in> set cols) (q_fields e)))"

text \<open>A node identifier passes the source predicates, or the destination predicates, when a
  row of the frame they are evaluated on carries it and passes.\<close>

definition source_ok :: "'v env \<Rightarrow> 'v option \<Rightarrow> bool" where
  "source_ok E u =
     (\<exists>p \<in> set (rows (start_nodes E)). map_of p (node E) = u
        \<and> passes (source_node_match (rq E)) (source_node_query (rq E)) p)"

definition destination_ok :: "'v env \<Rightarrow> 'v option \<Rightarrow> bool" where
  "destination_ok E v =
     (if has_destination_predicate E then
        (\<exists>p \<in> set (rows (base_target_nodes E)). map_of p (node E) = v
           \<and> passes (destination_node_match (rq E)) (destination_node_query (rq E)) p)
      else True)"

definition forward_active :: "'v env \<Rightarrow> bool" where
  "forward_active E = (direction (rq E) = ''forward'' \<or> direction (rq E) = ''undirected'')"

definition reverse_active :: "'v env \<Rightarrow> bool" where
  "reverse_active E = (direction (rq E) = ''reverse'' \<or> direction (rq E) = ''undirected'')"

text \<open>An edge row can be traversed from the starting frame in one hop.\<close>

definition traversable :: "'v env \<Rightarrow> 'v row \<Rightarrow> bool" where
  "traversable E e =
     ((forward_active E \<and> source_ok E (map_of e (source E))
         \<and> destination_ok E (map_of e (destination E)))
      \<or> (reverse_active E \<and> source_ok E (map_of e (destination E))
         \<and> destination_ok E (map_of e (source E))))"

lemma find_None_all: "find P xs = None \<longleftrightarrow> list_all (\<lambda>x. \<not> P x) xs"
  by (induction xs) auto

lemma filter_by_dict_ok_iff:
  "(\<exists>x. filter_by_dict df d = Inr x) \<longleftrightarrow> fields_ok (columns df) d None"
  by (auto simp: filter_by_dict_def fields_ok_def find_None_all list_all_iff
      split: option.splits dest!: find_SomeD)

lemma query_if_not_none_ok_iff:
  "(\<exists>x. query_if_not_none q df = Inr x) \<longleftrightarrow> fields_ok (columns df) None q"
  by (auto simp: query_if_not_none_def df_query_def fields_ok_def find_None_all list_all_iff
      split: option.splits dest!: find_SomeD)

lemma columns_filter_by_dict: "filter_by_dict df d = Inr x \<Longrightarrow> columns x = columns df"
  by (drule filter_by_dict_Inr) simp

lemma filter_then_query_ok_iff:
  "(\<exists>x. filter_then_query df d q = Inr x) \<longleftrightarrow> fields_ok (columns df) d q"
proof -
  have split: "fields_ok cols d q \<longleftrightarrow> fields_ok cols d None \<and> fields_ok cols None q" for cols
    by (simp add: fields_ok_def)
  show ?thesis
  proof (cases "filter_by_dict df d")
    case (Inl e)
    with filter_by_dict_ok_iff[of df d] show ?thesis
      by (simp add: filter_then_query_def split[of "columns df"])
  next
    case (Inr x)
    with filter_by_dict_ok_iff[of df d] query_if_not_none_ok_iff[of q x] columns_filter_by_dict[OF Inr]
    show ?thesis
      by (simp add: filter_then_query_def split[of "columns df"])
  qed
qed

lemma fields_ok_mono:
  "fields_ok cols d q \<Longrightarrow> set cols \<subseteq> set cols' \<Longrightarrow> fields_ok cols' d q"
  by (auto simp: fields_ok_def list_all_iff split: option.splits)

lemma filter_then_query_rows:
  assumes "filter_then_query df d q = Inr x"
  shows "set (rows x) = {p \<in> set (rows df). passes d q p}"
  using filter_then_query_Inr[OF assms] by simp

lemma set_merge_left_rows:
  "set (rows (merge_left ws df key)) =
     {p \<in> set (rows df). map_of p key \<in> set ws}
     \<union> {null_row key w | w. w \<in> set ws \<and> w \<notin> (\<lambda>p. map_of p key) ` set (rows df)}"
  by (auto simp: merge_left_def Let_def filter_empty_conv)

lemma map_of_null_row [simp]: "map_of (null_row key w) key = w"
  by (cases w) (simp_all add: null_row_def)

lemma wave_front_iter_first:
  assumes "wave_front_iter E s = Inr wfi" and "first_iter s"
  shows "set wfi = {u. source_ok E u}"
  using assms
  by (auto simp: wave_front_iter_def column_ids_def source_ok_def split: sum.splits
      dest!: filter_then_query_rows)

lemma wave_front_iter_later:
  assumes "wave_front_iter E s = Inr wfi" and "\<not> first_iter s" and "u \<in> set wfi"
  shows "u \<in> set (wave_front s)
         \<and> (u \<in> set (column_ids (start_nodes E) (node E)) \<longrightarrow> source_ok E u)"
proof -
  from assms(1,2) obtain x where x: "filter_then_query (merge_left (wave_front s) (start_nodes E) (node E))
      (source_node_match (rq E)) (source_node_query (rq E)) = Inr x" and wfi: "wfi = column_ids x (node E)"
    by (auto simp: wave_front_iter_def split: sum.splits)
  from assms(3) wfi obtain p where p: "p \<in> set (rows x)" "map_of p (node E) = u"
    by (auto simp: column_ids_def)
  from p(1) filter_then_query_rows[OF x]
  have pm: "p \<in> set (rows (merge_left (wave_front s) (start_nodes E) (node E)))"
    and pp: "passes (source_node_match (rq E)) (source_node_query (rq E)) p" by auto
  from pm p(2) show ?thesis
    unfolding set_merge_left_rows using pp
    by (auto simp: source_ok_def column_ids_def)
qed

lemma hop_direction_edges:
  assumes "hop_direction E wfi key far = Inr (hs, ns)"
  shows "set hs = {h \<in> set (candidates E wfi key). destination_ok E (far h)}"
proof (cases "has_destination_predicate E")
  case False
  with assms show ?thesis by (auto simp: hop_direction_unfold destination_ok_def)
next
  case True
  let ?c = "candidates E wfi key"
  from True assms have f: "filter_new_node_ids E (drop_duplicates (map far ?c)) = Inr ns"
    and hs: "hs = restrict_edges ?c far ns"
    by (simp_all add: hop_direction_unfold split: sum.splits)
  have "far h \<in> set ns \<longleftrightarrow> destination_ok E (far h)" if "h \<in> set ?c" for h
  proof
    assume "far h \<in> set ns"
    with filter_new_node_ids_Inr[OF f] True show "destination_ok E (far h)"
      by (force simp: destination_ok_def)
  next
    assume "destination_ok E (far h)"
    with True obtain p where "p \<in> set (rows (base_target_nodes E))" "map_of p (node E) = far h"
      "passes (destination_node_match (rq E)) (destination_node_query (rq E)) p"
      by (auto simp: destination_ok_def)
    moreover from that have "far h \<in> set (drop_duplicates (map far ?c))" by simp
    ultimately show "far h \<in> set ns"
      unfolding filter_new_node_ids_Inr[OF f] by force
  qed
  then show ?thesis
    unfolding hs set_restrict_edges by auto
qed

text \<open>The predicates of an environment can be evaluated on the frames the loop applies them
  to.\<close>

definition env_ok :: "'v env \<Rightarrow> bool" where
  "env_ok E =
     (fields_ok (columns (start_nodes E)) (source_node_match (rq E)) (source_node_query (rq E))
      \<and> (if has_destination_predicate E then
            fields_ok (columns (base_target_nodes E))
              (destination_node_match (rq E)) (destination_node_query (rq E))
          else True))"

lemma columns_merge_left: "set (columns (merge_left ws df key)) = insert key (set (columns df))"
  by (auto simp: merge_left_def)

lemma columns_merge_inner: "columns (merge_inner df ws key) = columns df"
  by (simp add: merge_inner_def)

lemma wave_front_iter_ok:
  assumes "env_ok E"
  shows "\<exists>wfi. wave_front_iter E s = Inr wfi"
proof -
  let ?df = "if first_iter s then start_nodes E
             else merge_left (wave_front s) (start_nodes E) (node E)"
  from assms have "fields_ok (columns (start_nodes E)) (source_node_match (rq E)) (source_node_query (rq E))"
    by (simp add: env_ok_def)
  then have "fields_ok (columns ?df) (source_node_match (rq E)) (source_node_query (rq E))"
    by (auto intro: fields_ok_mono simp: columns_merge_left)
  then obtain x where "filter_then_query ?df (source_node_match (rq E)) (source_node_query (rq E)) = Inr x"
    using filter_then_query_ok_iff by blast
  then show ?thesis by (simp add: wave_front_iter_def)
qed

lemma filter_new_node_ids_ok_iff:
  "(\<exists>x. filter_new_node_ids E ns = Inr x) \<longleftrightarrow>
     fields_ok (columns (base_target_nodes E)) (destination_node_match (rq E)) (destination_node_query (rq E))"
proof -
  have "(\<exists>x. filter_new_node_ids E ns = Inr x) \<longleftrightarrow>
      (\<exists>y. filter_then_query (merge_inner (base_target_nodes E) ns (node E))
              (destination_node_match (rq E)) (destination_node_query (rq E)) = Inr y)"
    by (auto simp: filter_new_node_ids_def split: sum.splits)
  then show ?thesis by (simp add: filter_then_query_ok_iff columns_merge_inner)
qed

lemma hop_direction_ok_iff:
  "(\<exists>x. hop_direction E wfi key far = Inr x) \<longleftrightarrow>
     (has_destination_predicate E \<longrightarrow>
        fields_ok (columns (base_target_nodes E)) (destination_node_match (rq E)) (destination_node_query (rq E)))"
proof (cases "has_destination_predicate E")
  case False
  then show ?thesis by (simp add: hop_direction_unfold)
next
  case True
  have "(\<exists>x. hop_direction E wfi key far = Inr x) \<longleftrightarrow>
      (\<exists>y. filter_new_node_ids E (drop_duplicates (map far (candidates E wfi key))) = Inr y)"
    using True by (auto simp: hop_direction_unfold split: sum.splits)
  with True show ?thesis by (simp add: filter_new_node_ids_ok_iff)
qed

lemma hop_forward_ok:
  assumes "env_ok E"
  shows "\<exists>fwd. hop_forward E wfi = Inr fwd"
proof -
  from assms hop_direction_ok_iff[of E wfi "source E" he_destination]
  obtain x where "hop_direction E wfi (source E) he_destination = Inr x"
    by (auto simp: env_ok_def split: if_splits)
  then show ?thesis by (simp add: hop_forward_def)
qed

lemma hop_reverse_ok:
  assumes "env_ok E"
  shows "\<exists>bwd. hop_reverse E wfi = Inr bwd"
proof -
  from assms hop_direction_ok_iff[of E wfi "destination E" he_source]
  obtain x where "hop_direction E wfi (destination E) he_source = Inr x"
    by (auto simp: env_ok_def split: if_splits)
  then show ?thesis by (simp add: hop_reverse_def)
qed

lemma iteration_ok:
  assumes "env_ok E"
  shows "\<exists>oc. iteration E s = Inr oc"
proof -
  from wave_front_iter_ok[OF assms] obtain wfi where w: "wave_front_iter E s = Inr wfi" by blast
  from hop_forward_ok[OF assms] obtain fwd where f: "hop_forward E wfi = Inr fwd" by blast
  from hop_reverse_ok[OF assms] obtain bwd where b: "hop_reverse E wfi = Inr bwd" by blast
  from w f b show ?thesis by (simp add: iteration_def)
qed

lemma hop_loop_ok:
  assumes "env_ok E"
  shows "\<exists>st. hop_loop E s = Inr st"
  using assms
proof (induction E s rule: hop_loop.induct)
  case (1 E s)
  show ?case
  proof (cases "budget E s")
    case None
    then show ?thesis by (simp add: hop_loop.simps)
  next
    case (Some s1)
    from iteration_ok[OF "1.prems"] obtain oc where oc: "iteration E s1 = Inr oc" by blast
    show ?thesis
    proof (cases oc)
      case (Break s')
      with Some oc show ?thesis by (simp add: hop_loop.simps)
    next
      case (Continue s')
      from "1.IH"[OF Some oc Continue "1.prems"] Some oc Continue show ?thesis
        by (simp add: hop_loop.simps[of E s])
    qed
  qed
qed

lemma first_iteration_env_ok:
  assumes it: "iteration E s = Inr oc" and first: "first_iter s"
    and dir: "forward_active E \<or> reverse_active E"
  shows "env_ok E"
proof -
  from it obtain wfi fwd bwd where w: "wave_front_iter E s = Inr wfi"
    and f: "hop_forward E wfi = Inr fwd" and b: "hop_reverse E wfi = Inr bwd"
    by (rule iteration_Inr)
  from w first obtain x where "filter_then_query (start_nodes E)
      (source_node_match (rq E)) (source_node_query (rq E)) = Inr x"
    by (auto simp: wave_front_iter_def split: sum.splits)
  then have src: "fields_ok (columns (start_nodes E)) (source_node_match (rq E)) (source_node_query (rq E))"
    using filter_then_query_ok_iff by blast
  from dir f b have "\<exists>key far x. hop_direction E wfi key far = Inr x"
    by (auto simp: hop_forward_def hop_reverse_def forward_active_def reverse_active_def
        split: if_splits sum.splits)
  then have "has_destination_predicate E \<longrightarrow>
      fields_ok (columns (base_target_nodes E)) (destination_node_match (rq E)) (destination_node_query (rq E))"
    using hop_direction_ok_iff by blast
  with src show ?thesis by (simp add: env_ok_def)
qed

text \<open>The indexed edges an iteration traverses from the frontier \<open>wfi\<close>, in each direction.\<close>

definition forward_hits :: "'v env \<Rightarrow> 'v ids \<Rightarrow> ('v edge_id \<times> 'v row) set" where
  "forward_hits E wfi =
     {ir \<in> set (indexed E). forward_active E \<and> map_of (snd ir) (source E) \<in> set wfi
        \<and> destination_ok E (map_of (snd ir) (destination E))}"

definition reverse_hits :: "'v env \<Rightarrow> 'v ids \<Rightarrow> ('v edge_id \<times> 'v row) set" where
  "reverse_hits E wfi =
     {ir \<in> set (indexed E). reverse_active E \<and> map_of (snd ir) (destination E) \<in> set wfi
        \<and> destination_ok E (map_of (snd ir) (source E))}"

definition as_hop_edge :: "'v env \<Rightarrow> ('v edge_id \<times> 'v row) \<Rightarrow> 'v hop_edge" where
  "as_hop_edge E ir = (map_of (snd ir) (source E), map_of (snd ir) (destination E), fst ir)"

lemma as_hop_edge_simps [simp]:
  "he_source (as_hop_edge E ir) = map_of (snd ir) (source E)"
  "he_destination (as_hop_edge E ir) = map_of (snd ir) (destination E)"
  "he_id (as_hop_edge E ir) = fst ir"
  by (simp_all add: as_hop_edge_def he_source_def he_destination_def he_id_def)

lemma set_candidates:
  "set (candidates E wfi key) = as_hop_edge E ` {ir \<in> set (indexed E). map_of (snd ir) key \<in> set wfi}"
proof -
  have "h \<in> set (candidates E wfi key) \<longleftrightarrow>
      h \<in> as_hop_edge E ` {ir \<in> set (indexed E). map_of (snd ir) key \<in> set wfi}" for h
    unfolding candidates_iff image_iff as_hop_edge_def by blast
  then show ?thesis by blast
qed

lemma hop_forward_hits:
  assumes "hop_forward E wfi = Inr fwd"
  shows "set (if_not_none fwd fst) = as_hop_edge E ` forward_hits E wfi"
proof (cases "forward_active E")
  case False
  with assms show ?thesis
    by (auto simp: hop_forward_def forward_active_def forward_hits_def if_not_none_def)
next
  case True
  with assms obtain hs ns where r: "hop_direction E wfi (source E) he_destination = Inr (hs, ns)"
    and fwd: "fwd = Some (hs, ns)"
    by (auto simp: hop_forward_def forward_active_def split: sum.splits)
  from hop_direction_edges[OF r] True show ?thesis
    by (auto simp: fwd if_not_none_def set_candidates forward_hits_def)
qed

lemma hop_reverse_hits:
  assumes "hop_reverse E wfi = Inr bwd"
  shows "set (if_not_none bwd fst) = as_hop_edge E ` reverse_hits E wfi"
proof (cases "reverse_active E")
  case False
  with assms show ?thesis
    by (auto simp: hop_reverse_def reverse_active_def reverse_hits_def if_not_none_def)
next
  case True
  with assms obtain hs ns where r: "hop_direction E wfi (destination E) he_source = Inr (hs, ns)"
    and bwd: "bwd = Some (hs, ns)"
    by (auto simp: hop_reverse_def reverse_active_def split: sum.splits)
  from hop_direction_edges[OF r] True show ?thesis
    by (auto simp: bwd if_not_none_def set_candidates reverse_hits_def)
qed

lemma hop_forward_new:
  assumes "hop_forward E wfi = Inr fwd"
  shows "set (if_not_none fwd snd) = he_destination ` set (if_not_none fwd fst)"
  using assms hop_forward_Some[of E wfi] by (cases fwd) (auto simp: if_not_none_def)

lemma hop_reverse_new:
  assumes "hop_reverse E wfi = Inr bwd"
  shows "set (if_not_none bwd snd) = he_source ` set (if_not_none bwd fst)"
  using assms hop_reverse_Some[of E wfi] by (cases bwd) (auto simp: if_not_none_def)

lemma set_if_not_none_map: "set (if_not_none x (\<lambda>r. map f (fst r))) = f ` set (if_not_none x fst)"
  by (cases x) (simp_all add: if_not_none_def)

lemma set_if_not_none_dd:
  "set (if_not_none x (\<lambda>r. drop_duplicates (map f (fst r)))) = f ` set (if_not_none x fst)"
  by (cases x) (simp_all add: if_not_none_def)

lemma iteration_sets:
  assumes f: "hop_forward E wfi = Inr fwd" and b: "hop_reverse E wfi = Inr bwd"
  shows "set (traversed_ids fwd bwd) = fst ` (forward_hits E wfi \<union> reverse_hits E wfi)"
    and "set (root_ids fwd bwd)
           = (\<lambda>ir. map_of (snd ir) (source E)) ` forward_hits E wfi
             \<union> (\<lambda>ir. map_of (snd ir) (destination E)) ` reverse_hits E wfi"
    and "set (new_node_ids fwd bwd)
           = (\<lambda>ir. map_of (snd ir) (destination E)) ` forward_hits E wfi
             \<union> (\<lambda>ir. map_of (snd ir) (source E)) ` reverse_hits E wfi"
  unfolding traversed_ids_def root_ids_def new_node_ids_def
  by (simp_all add: set_if_not_none_map set_if_not_none_dd hop_forward_new[OF f] hop_reverse_new[OF b]
      hop_forward_hits[OF f] hop_reverse_hits[OF b] image_Un image_image)

lemma first_hits_traversable:
  assumes "set wfi = {u. source_ok E u}"
  shows "forward_hits E wfi \<union> reverse_hits E wfi = {ir \<in> set (indexed E). traversable E (snd ir)}"
  using assms by (auto simp: forward_hits_def reverse_hits_def traversable_def)

lemma result_ids_accumulate_set:
  assumes "distinct (seeded E s fwd bwd)"
  shows "set (result_ids (state_of (accumulate E s fwd bwd)))
           = set (seeded E s fwd bwd) \<union> set (new_node_ids fwd bwd)"
  using same_length_subset[OF assms, of "new_node_ids fwd bwd"]
  by (auto simp: accumulate_unfold state_of_def result_ids_def)

text \<open>An indexed edge that accounts for part of a state: it is matched, it can be traversed
  in one hop from rows of the starting frame, and both its endpoints are result nodes.\<close>

definition good :: "'v env \<Rightarrow> 'v state \<Rightarrow> ('v edge_id \<times> 'v row) \<Rightarrow> bool" where
  "good E s ir =
     (fst ir \<in> set (matches_edges s) \<and> traversable E (snd ir)
      \<and> map_of (snd ir) (source E) \<in> set (result_ids s)
      \<and> map_of (snd ir) (destination E) \<in> set (result_ids s))"

definition explained :: "'v env \<Rightarrow> 'v state \<Rightarrow> bool" where
  "explained E s =
     (distinct (result_ids s) \<and> distinct (matches_edges s)
      \<and> set (wave_front s) \<subseteq> set (result_ids s)
      \<and> set (result_ids s) \<subseteq> endpoints E
      \<and> (first_iter s \<longrightarrow> matches_nodes s = None)
      \<and> (\<forall>i \<in> set (matches_edges s). \<exists>ir \<in> set (indexed E). fst ir = i \<and> good E s ir)
      \<and> (\<forall>m \<in> set (result_ids s). \<exists>ir \<in> set (indexed E). good E s ir
            \<and> (m = map_of (snd ir) (source E) \<or> m = map_of (snd ir) (destination E))))"

lemma good_mono:
  assumes "good E s ir" and "set (matches_edges s) \<subseteq> set (matches_edges s')"
    and "set (result_ids s) \<subseteq> set (result_ids s')"
  shows "good E s' ir"
  using assms by (auto simp: good_def)

lemma explained_initial: "explained E (initial_state r)"
  by (simp add: explained_def initial_state_def result_ids_def)

lemma budget_explained:
  assumes "budget E s = Some s1"
  shows "explained E s1 = explained E s"
proof -
  from assms obtain h where "s1 = s \<lparr> hops_remaining := h \<rparr>"
    by (cases "\<not> to_fixed_point (rq E) \<and> hops_remaining s \<noteq> None")
       (auto simp: budget_def split: if_splits intro: that[of "hops_remaining s"])
  then show ?thesis by (simp add: explained_def good_def result_ids_def)
qed

lemma hits_endpoints:
  "ir \<in> forward_hits E wfi \<union> reverse_hits E wfi \<Longrightarrow>
     map_of (snd ir) (source E) \<in> endpoints E \<and> map_of (snd ir) (destination E) \<in> endpoints E"
  by (auto simp: forward_hits_def reverse_hits_def endpoints_def endpoint_ids_def)

lemma iteration_explained:
  assumes closed: "endpoints E \<subseteq> set (column_ids (start_nodes E) (node E))"
    and nwf: "\<not> return_as_wave_front (rq E)"
    and J: "explained E s" and it: "iteration E s = Inr oc"
  shows "explained E (state_of oc)"
proof -
  let ?s0 = "s \<lparr> first_iter := False \<rparr>"
  let ?s' = "state_of oc"
  let ?src = "\<lambda>ir. map_of (snd ir) (source E)" and ?dst = "\<lambda>ir. map_of (snd ir) (destination E)"
  from it obtain wfi fwd bwd where w: "wave_front_iter E s = Inr wfi"
    and f: "hop_forward E wfi = Inr fwd" and b: "hop_reverse E wfi = Inr bwd"
    and oc: "oc = accumulate E ?s0 fwd bwd"
    by (rule iteration_Inr)
  let ?F = "forward_hits E wfi" and ?B = "reverse_hits E wfi"
  note sets = iteration_sets[OF f b]
  from J have dM: "distinct (result_ids s)" and dE: "distinct (matches_edges s)"
    and wv: "set (wave_front s) \<subseteq> set (result_ids s)"
    and bd: "set (result_ids s) \<subseteq> endpoints E"
    and fi: "first_iter s \<longrightarrow> matches_nodes s = None"
    and J1: "\<forall>i \<in> set (matches_edges s). \<exists>ir \<in> set (indexed E). fst ir = i \<and> good E s ir"
    and J2: "\<forall>m \<in> set (result_ids s). \<exists>ir \<in> set (indexed E). good E s ir
            \<and> (m = ?src ir \<or> m = ?dst ir)"
    by (simp_all add: explained_def)
  \<comment> \<open>the seed\<close>
  have seed: "seeded E ?s0 fwd bwd = (if first_iter s then root_ids fwd bwd else result_ids s)
      \<or> (seeded E ?s0 fwd bwd = result_ids s \<and> matches_nodes s \<noteq> None)
      \<or> (seeded E ?s0 fwd bwd = root_ids fwd bwd \<and> matches_nodes s = None)"
    using nwf fi by (auto simp: seeded_def result_ids_def split: option.splits)
  have seed_set: "set (seeded E ?s0 fwd bwd) = set (result_ids s) \<union>
      (if matches_nodes s = None then set (root_ids fwd bwd) else {})"
    using nwf by (auto simp: seeded_def result_ids_def split: option.splits)
  have dseed: "distinct (seeded E ?s0 fwd bwd)"
    using dM by (auto simp: seeded_def result_ids_def root_ids_def split: option.splits)
  have M': "set (result_ids ?s') = set (seeded E ?s0 fwd bwd) \<union> set (new_node_ids fwd bwd)"
    unfolding oc by (rule result_ids_accumulate_set[OF dseed])
  have ME': "set (matches_edges ?s') = set (matches_edges s) \<union> fst ` (?F \<union> ?B)"
    by (simp add: oc accumulate_unfold state_of_def sets(1))
  have subM: "set (result_ids s) \<subseteq> set (result_ids ?s')" using M' seed_set by auto
  have subE: "set (matches_edges s) \<subseteq> set (matches_edges ?s')" using ME' by auto
  \<comment> \<open>the frontier\<close>
  have wfi_ok: "source_ok E u \<and> (first_iter s \<or> u \<in> set (result_ids s))" if "u \<in> set wfi" for u
  proof (cases "first_iter s")
    case True
    with wave_front_iter_first[OF w] that show ?thesis by auto
  next
    case False
    from wave_front_iter_later[OF w False that] wv bd closed show ?thesis by auto
  qed
  have near_in: "u \<in> set (result_ids ?s')"
    if "u \<in> set wfi" "u \<in> ?src ` ?F \<union> ?dst ` ?B" for u
  proof (cases "first_iter s")
    case True
    with fi seed_set that(2) M' sets(2) show ?thesis by auto
  next
    case False
    with wfi_ok[OF that(1)] subM show ?thesis by auto
  qed
  \<comment> \<open>every edge traversed now is good afterwards\<close>
  have hit_good: "good E ?s' ir" if "ir \<in> ?F \<union> ?B" for ir
  proof -
    from that have id: "fst ir \<in> set (matches_edges ?s')" using ME' by auto
    from that show ?thesis
    proof
      assume F: "ir \<in> ?F"
      then have u: "?src ir \<in> set wfi" and act: "forward_active E"
        and d: "destination_ok E (?dst ir)"
        by (auto simp: forward_hits_def)
      from wfi_ok[OF u] act d have t: "traversable E (snd ir)" by (auto simp: traversable_def)
      from F have "?dst ir \<in> set (new_node_ids fwd bwd)" unfolding sets(3) by blast
      with M' have far: "?dst ir \<in> set (result_ids ?s')" by auto
      from F have "?src ir \<in> ?src ` ?F \<union> ?dst ` ?B" by blast
      from near_in[OF u this] id t far show ?thesis by (simp add: good_def)
    next
      assume B: "ir \<in> ?B"
      then have u: "?dst ir \<in> set wfi" and act: "reverse_active E"
        and d: "destination_ok E (?src ir)"
        by (auto simp: reverse_hits_def)
      from wfi_ok[OF u] act d have t: "traversable E (snd ir)" by (auto simp: traversable_def)
      from B have "?src ir \<in> set (new_node_ids fwd bwd)" unfolding sets(3) by blast
      with M' have far: "?src ir \<in> set (result_ids ?s')" by auto
      from B have "?dst ir \<in> ?src ` ?F \<union> ?dst ` ?B" by blast
      from near_in[OF u this] id t far show ?thesis by (simp add: good_def)
    qed
  qed
  have hit_indexed: "ir \<in> set (indexed E)" if "ir \<in> ?F \<union> ?B" for ir
    using that by (auto simp: forward_hits_def reverse_hits_def)
  have old_good: "good E ?s' ir" if "good E s ir" for ir
    using that subE subM by (rule good_mono)
  \<comment> \<open>the seven parts\<close>
  have 1: "distinct (result_ids ?s')"
    using dseed by (auto simp: oc accumulate_unfold state_of_def result_ids_def)
  have 2: "distinct (matches_edges ?s')"
    by (simp add: oc accumulate_unfold state_of_def)
  have 3: "set (wave_front ?s') \<subseteq> set (result_ids ?s')"
    using wv subM M' by (auto simp: oc accumulate_unfold state_of_def split: if_splits)
  have 4: "set (result_ids ?s') \<subseteq> endpoints E"
    using iteration_result_ids_bounded[OF it bd] .
  have 5: "first_iter ?s' \<longrightarrow> matches_nodes ?s' = None"
    by (simp add: oc accumulate_unfold state_of_def)
  have 6: "\<forall>i \<in> set (matches_edges ?s'). \<exists>ir \<in> set (indexed E). fst ir = i \<and> good E ?s' ir"
  proof
    fix i assume "i \<in> set (matches_edges ?s')"
    with ME' consider "i \<in> set (matches_edges s)" | ir where "ir \<in> ?F \<union> ?B" "i = fst ir" by auto
    then show "\<exists>ir \<in> set (indexed E). fst ir = i \<and> good E ?s' ir"
    proof cases
      case 1
      with J1 old_good show ?thesis by blast
    next
      case 2
      with hit_good hit_indexed show ?thesis by blast
    qed
  qed
  have 7: "\<forall>m \<in> set (result_ids ?s'). \<exists>ir \<in> set (indexed E). good E ?s' ir
            \<and> (m = ?src ir \<or> m = ?dst ir)"
  proof
    fix m assume m: "m \<in> set (result_ids ?s')"
    have "set (result_ids ?s') \<subseteq> set (result_ids s) \<union> (?src ` (?F \<union> ?B) \<union> ?dst ` (?F \<union> ?B))"
      unfolding M' seed_set sets(2,3) by (auto split: if_splits)
    with m have "m \<in> set (result_ids s) \<or> (\<exists>ir \<in> ?F \<union> ?B. m = ?src ir \<or> m = ?dst ir)"
      by blast
    then consider "m \<in> set (result_ids s)" | ir where "ir \<in> ?F \<union> ?B" "m = ?src ir \<or> m = ?dst ir"
      by blast
    then show "\<exists>ir \<in> set (indexed E). good E ?s' ir \<and> (m = ?src ir \<or> m = ?dst ir)"
    proof cases
      case 1
      with J2 old_good show ?thesis by blast
    next
      case 2
      with hit_good hit_indexed show ?thesis by blast
    qed
  qed
  from 1 2 3 4 5 6 7 show ?thesis unfolding explained_def by blast
qed

lemma hop_loop_explained:
  assumes closed: "endpoints E \<subseteq> set (column_ids (start_nodes E) (node E))"
    and nwf: "\<not> return_as_wave_front (rq E)"
    and loop: "hop_loop E (initial_state r) = Inr st"
  shows "explained E st"
proof (rule hop_loop_invariant[OF loop, where P = "explained E"])
  show "explained E (initial_state r)" by (rule explained_initial)
next
  fix s s1 oc
  assume "explained E s" "budget E s = Some s1" "iteration E s1 = Inr oc"
  then show "explained E (state_of oc)"
    using iteration_explained[OF closed nwf, of s1 oc] budget_explained[of E s s1] by simp
qed

lemma filter_eq_singleton:
  "distinct ws \<Longrightarrow> a \<in> set ws \<Longrightarrow> filter (\<lambda>w. a = w) ws = [a]"
proof (induction ws)
  case Nil
  then show ?case by simp
next
  case (Cons w ws)
  show ?case
  proof (cases "a = w")
    case True
    with Cons.prems have "filter (\<lambda>x. a = x) ws = []" by (auto simp: filter_empty_conv)
    with True show ?thesis by simp
  next
    case False
    with Cons show ?thesis by simp
  qed
qed

lemma join_all_present:
  assumes "distinct ws" and "\<forall>x \<in> set xs. f x \<in> set ws"
  shows "concat (map (\<lambda>x. map (\<lambda>w. g x) (filter (\<lambda>w. f x = w) ws)) xs) = map g xs"
  using assms(2) by (induction xs) (simp_all add: filter_eq_singleton[OF assms(1)])

lemma merge_inner_all_present:
  assumes "distinct ws" and "\<forall>p \<in> set (rows df). map_of p key \<in> set ws"
  shows "merge_inner df ws key = df"
  using join_all_present[OF assms(1), of "rows df" "\<lambda>p. map_of p key" "\<lambda>p. p"] assms(2)
  by (simp add: merge_inner_def)

lemma final_edges_all_present:
  assumes "distinct ms" and "\<forall>ir \<in> set ei. fst ir \<in> set ms"
  shows "rows (final_edges g2 ei ms) = map snd ei"
  using join_all_present[OF assms(1), of ei fst snd] assms(2)
  by (simp add: final_edges_def)

lemma rows_final_edges_filter:
  assumes "distinct ms"
  shows "rows (final_edges g2 ei ms) = map snd (filter (\<lambda>ir. fst ir \<in> set ms) ei)"
proof -
  have "concat (map (\<lambda>ir. map (\<lambda>m. snd ir) (filter (\<lambda>m. fst ir = m) ms)) ei)
      = map snd (filter (\<lambda>ir. fst ir \<in> set ms) ei)"
  proof (induction ei)
    case Nil
    then show ?case by simp
  next
    case (Cons ir ei)
    show ?case
    proof (cases "fst ir \<in> set ms")
      case True
      with Cons filter_eq_singleton[OF assms True] show ?thesis by simp
    next
      case False
      then have "filter (\<lambda>m. fst ir = m) ms = []" by (auto simp: filter_empty_conv)
      with False Cons show ?thesis by simp
    qed
  qed
  then show ?thesis by (simp add: final_edges_def)
qed

lemma hop_loop_matches_edges_mono:
  assumes "hop_loop E s = Inr st"
  shows "set (matches_edges s) \<subseteq> set (matches_edges st)"
proof (rule hop_loop_invariant[OF assms, where P = "\<lambda>x. set (matches_edges s) \<subseteq> set (matches_edges x)"])
  show "set (matches_edges s) \<subseteq> set (matches_edges s)" by simp
next
  fix x x1 oc
  assume a: "set (matches_edges s) \<subseteq> set (matches_edges x)" and b: "budget E x = Some x1"
    and it: "iteration E x1 = Inr oc"
  from it obtain wfi fwd bwd where "oc = accumulate E (x1 \<lparr> first_iter := False \<rparr>) fwd bwd"
    by (rule iteration_Inr)
  then have "set (matches_edges x1) \<subseteq> set (matches_edges (state_of oc))"
    by (simp add: accumulate_matches_edges)
  with a budget_matches_edges[OF b] show "set (matches_edges s) \<subseteq> set (matches_edges (state_of oc))"
    by simp
qed

lemma first_iteration_matches_edges:
  assumes loop: "hop_loop E s = Inr st" and b: "budget E s = Some s1"
    and it: "iteration E s1 = Inr oc"
  shows "set (matches_edges (state_of oc)) \<subseteq> set (matches_edges st)"
proof -
  from hop_loop_unroll[OF loop b it] show ?thesis
  proof
    assume "oc = Break st"
    then show ?thesis by (simp add: state_of_def)
  next
    assume "\<exists>s'. oc = Continue s' \<and> hop_loop E s' = Inr st"
    then obtain s' where "oc = Continue s'" "hop_loop E s' = Inr st" by blast
    with hop_loop_matches_edges_mono[of E s' st] show ?thesis by (simp add: state_of_def)
  qed
qed

text \<open>What a first iteration in fixed-point mode finds, when the result is not a wavefront:
  every traversable indexed edge is matched and both its endpoints are result nodes.\<close>

lemma first_iteration_finds_traversable:
  assumes fp: "to_fixed_point (rq E)" and nwf: "\<not> return_as_wave_front (rq E)"
    and loop: "hop_loop E (initial_state r) = Inr st"
    and ir: "ir \<in> set (indexed E)" and t: "traversable E (snd ir)"
  shows "fst ir \<in> set (matches_edges st)
         \<and> map_of (snd ir) (source E) \<in> set (result_ids st)
         \<and> map_of (snd ir) (destination E) \<in> set (result_ids st)"
proof -
  let ?s = "initial_state r"
  let ?t = "?s \<lparr> first_iter := False \<rparr>"
  have b: "budget E ?s = Some ?s" by (rule budget_fixed_point[OF fp])
  from loop b obtain oc where it: "iteration E ?s = Inr oc"
    by (cases "iteration E ?s") (auto simp: hop_loop.simps[of E ?s])
  from it obtain wfi fwd bwd where w: "wave_front_iter E ?s = Inr wfi"
    and f: "hop_forward E wfi = Inr fwd" and bw: "hop_reverse E wfi = Inr bwd"
    and oc: "oc = accumulate E ?t fwd bwd"
    by (rule iteration_Inr)
  have first: "first_iter ?s" and none: "matches_nodes ?t = None"
    by (simp_all add: initial_state_def)
  note sets = iteration_sets[OF f bw]
  from first_hits_traversable[OF wave_front_iter_first[OF w first]] ir t
  have hit: "ir \<in> forward_hits E wfi \<union> reverse_hits E wfi" by simp
  have "set (matches_edges (state_of oc)) = set (matches_edges ?t) \<union> set (traversed_ids fwd bwd)"
    by (simp add: oc accumulate_unfold state_of_def)
  with hit sets(1) have 1: "fst ir \<in> set (matches_edges (state_of oc))" by auto
  have "set (result_ids (state_of oc)) = set (root_ids fwd bwd) \<union> set (new_node_ids fwd bwd)"
    unfolding oc result_ids_first_accumulate[OF none] using none nwf by (simp add: seeded_def)
  with hit sets(2,3) have 2: "map_of (snd ir) (source E) \<in> set (result_ids (state_of oc))"
    "map_of (snd ir) (destination E) \<in> set (result_ids (state_of oc))" by auto
  from 1 2 first_iteration_matches_edges[OF loop b it] first_iteration_result[OF loop b it]
  show ?thesis by blast
qed

lemma prepare_unfold:
  assumes "valid_direction (direction r)" and "to_fixed_point r \<or> hops r \<noteq> None"
  shows "prepare g r =
     (case edges_indexed (materialize_nodes g) (edge_match r) (edge_query r) of
        Inl e \<Rightarrow> Inl e
      | Inr ei \<Rightarrow>
          (case g_node g of
             None \<Rightarrow> Inl (ConfigurationError Node_binding_none)
           | Some key \<Rightarrow>
               (case g_source g of
                  None \<Rightarrow> Inl (ConfigurationError Source_destination_binding_none)
                | Some s \<Rightarrow>
                   (case g_destination g of
                      None \<Rightarrow> Inl (ConfigurationError Source_destination_binding_none)
                    | Some d \<Rightarrow>
                       Inr \<lparr> rq = normalize r, node = key, source = s, destination = d,
                             start_nodes = (case nodes r of None \<Rightarrow> the (g_nodes (materialize_nodes g)) | Some n \<Rightarrow> n),
                             indexed = ei,
                             base_target_nodes =
                               (case target_wave_front r of Some t \<Rightarrow> t | None \<Rightarrow> the (g_nodes (materialize_nodes g))) \<rparr>))))"
proof -
  from assms(2) have c: "(\<not> to_fixed_point r \<and> hops r = None) = False" by auto
  have v: "(\<not> valid_direction (direction r)) = False" using assms(1) by simp
  show ?thesis
    unfolding prepare_def Let_def c v
    by (simp split: sum.splits option.splits)
qed

lemma prepare_checks:
  assumes "prepare g r = Inr E"
  shows "valid_direction (direction r)" and "to_fixed_point r \<or> hops r \<noteq> None"
  using assms unfolding prepare_def by (simp_all split: if_splits)

lemma prepare_Inr_elim:
  assumes "prepare g r = Inr E"
  shows "edges_indexed (materialize_nodes g) (edge_match r) (edge_query r) = Inr (indexed E)"
    and "g_node g = Some (node E)" and "g_source g = Some (source E)"
    and "g_destination g = Some (destination E)"
    and "rq E = normalize r"
    and "start_nodes E = (case nodes r of None \<Rightarrow> the (g_nodes (materialize_nodes g)) | Some n \<Rightarrow> n)"
    and "base_target_nodes E
           = (case target_wave_front r of Some t \<Rightarrow> t | None \<Rightarrow> the (g_nodes (materialize_nodes g)))"
  using assms unfolding prepare_unfold[OF prepare_checks[OF assms]]
  by (auto split: sum.splits option.splits)

lemma prepare_Inr_intro:
  assumes "valid_direction (direction r)" and "to_fixed_point r \<or> hops r \<noteq> None"
    and "edges_indexed (materialize_nodes g) (edge_match r) (edge_query r) = Inr ei"
    and "g_node g = Some key" and "g_source g = Some s" and "g_destination g = Some d"
  shows "prepare g r = Inr \<lparr> rq = normalize r, node = key, source = s, destination = d,
           start_nodes = (case nodes r of None \<Rightarrow> the (g_nodes (materialize_nodes g)) | Some n \<Rightarrow> n),
           indexed = ei,
           base_target_nodes =
             (case target_wave_front r of Some t \<Rightarrow> t | None \<Rightarrow> the (g_nodes (materialize_nodes g))) \<rparr>"
  unfolding prepare_unfold[OF assms(1,2)] using assms(3-6) by simp

lemma distinct_fst_reset_index: "distinct (map fst (reset_index rs))"
  by (simp add: reset_index_def distinct_map inj_on_def)

lemma fst_index_by: "ir \<in> set (index_by e rs) \<Longrightarrow> fst ir = Bound (map_of (snd ir) e)"
  by (auto simp: index_by_def)

lemma edges_indexed_filter:
  assumes "edges_indexed g2 m q = Inr ei"
  shows "\<exists>x. filter_then_query (g_edges g2) m q = Inr x"
proof (cases "filter_then_query (g_edges g2) m q")
  case (Inl e)
  with assms show ?thesis by (simp add: edges_indexed_def split: option.splits if_splits)
next
  case (Inr x)
  then show ?thesis by simp
qed

lemma edges_indexed_no_index:
  assumes "edges_indexed g2 m q = Inr ei" and "g_edge g2 = None"
  shows "''index'' \<notin> set (columns (g_edges g2))"
proof
  assume "''index'' \<in> set (columns (g_edges g2))"
  with assms show False by (simp add: edges_indexed_def)
qed

lemma edges_indexed_value:
  assumes "filter_then_query (g_edges g') m q = Inr y"
    and "g_edge g' = None \<Longrightarrow> ''index'' \<notin> set (columns (g_edges g'))"
  shows "edges_indexed g' m q
           = Inr (case g_edge g' of None \<Rightarrow> reset_index (rows y) | Some e \<Rightarrow> index_by e (rows y))"
proof (cases "g_edge g'")
  case None
  with assms show ?thesis by (simp add: edges_indexed_def)
next
  case (Some k)
  with assms(1) show ?thesis by (simp add: edges_indexed_def)
qed

lemma edges_indexed_again:
  assumes ei: "edges_indexed g2 m q = Inr ei"
    and e: "g_edge g' = g_edge g2" and c: "columns (g_edges g') = columns (g_edges g2)"
    and sub: "set (rows (g_edges g')) \<subseteq> snd ` set ei"
  shows "edges_indexed g' m q
           = Inr (case g_edge g2 of None \<Rightarrow> reset_index (rows (g_edges g'))
                  | Some e \<Rightarrow> index_by e (rows (g_edges g')))"
proof -
  from edges_indexed_filter[OF ei] obtain x where x: "filter_then_query (g_edges g2) m q = Inr x" ..
  have "fields_ok (columns (g_edges g2)) m q"
    using filter_then_query_ok_iff[of "g_edges g2" m q] x by simp
  then have "fields_ok (columns (g_edges g')) m q" by (simp only: c)
  then have "\<exists>y. filter_then_query (g_edges g') m q = Inr y"
    using filter_then_query_ok_iff[of "g_edges g'" m q] by simp
  then obtain y where y: "filter_then_query (g_edges g') m q = Inr y" ..
  have all: "passes m q p" if "p \<in> set (rows (g_edges g'))" for p
  proof -
    from that sub have "p \<in> set (map snd ei)" by auto
    then show ?thesis unfolding edges_indexed_Inr[OF ei] by simp
  qed
  have "filter (passes m q) (rows (g_edges g')) = rows (g_edges g')"
    unfolding filter_id_conv using all by blast
  then have ry: "rows y = rows (g_edges g')"
    unfolding filter_then_query_Inr[OF y] by simp
  have "g_edge g' = None \<Longrightarrow> ''index'' \<notin> set (columns (g_edges g'))"
    using edges_indexed_no_index[OF ei] e c by simp
  from edges_indexed_value[OF y this] show ?thesis unfolding ry e .
qed

lemma hop_loop_matches_edges_distinct:
  assumes "hop_loop E (initial_state r) = Inr st"
  shows "distinct (matches_edges st)"
proof (rule hop_loop_invariant[OF assms, where P = "\<lambda>s. distinct (matches_edges s)"])
  show "distinct (matches_edges (initial_state r))" by (simp add: initial_state_def)
next
  fix s s1 oc
  assume "iteration E s1 = Inr oc"
  then obtain wfi fwd bwd where "oc = accumulate E (s1 \<lparr> first_iter := False \<rparr>) fwd bwd"
    by (rule iteration_Inr)
  then show "distinct (matches_edges (state_of oc))" by (simp add: accumulate_matches_edges)
qed

lemma hydrate_nodes_edges:
  assumes "g_nodes g = Some ns" and "target_wave_front r = None"
  shows "hydrate g g2 r key ei st
           = g2 \<lparr> g_edges := final_edges g2 ei (matches_edges st),
                  g_nodes := Some (merge_inner ns (result_ids st) key) \<rparr>"
  using assms by (simp add: hydrate_def final_nodes_def result_ids_def Let_def)

end
